theory Spec2Isabelle
  imports Complex_Main "HOL-Library.Word" "HOL-Library.Multiset"
begin

section \<open>Strings, numbers and arrays of the host language\<close>

text \<open>
  A string of the program is a sequence of UTF-16 code units. String literals of the
  source are all ASCII and are written with \<open>ascii\<close>.
\<close>

type_synonym jsstring = "16 word list"

definition ascii :: "string \<Rightarrow> jsstring" where
  "ascii s = map (\<lambda>c. of_nat (of_char c)) s"

text \<open>
  The code units that \<open>String.prototype.trim\<close> strips and that the regular expression
  class \<open>\s\<close> matches: the WhiteSpace and LineTerminator productions of ECMAScript.
\<close>

definition is_space :: "16 word \<Rightarrow> bool" where
  "is_space c \<longleftrightarrow>
     c = 0x0009 \<or> c = 0x000A \<or> c = 0x000B \<or> c = 0x000C \<or> c = 0x000D \<or> c = 0x0020 \<or>
     c = 0x00A0 \<or> c = 0x1680 \<or> (0x2000 \<le> c \<and> c \<le> 0x200A) \<or> c = 0x2028 \<or>
     c = 0x2029 \<or> c = 0x202F \<or> c = 0x205F \<or> c = 0x3000 \<or> c = 0xFEFF"

definition trim :: "jsstring \<Rightarrow> jsstring" where
  "trim s = rev (dropWhile is_space (rev (dropWhile is_space s)))"

text \<open>
  \<open>text.split(/\s+/)\<close>: the pieces between the maximal runs of white space. The piece
  before a leading run and the piece after a trailing run are empty strings and are
  kept; the empty string splits into one empty piece.
\<close>

function split_from :: "jsstring \<Rightarrow> jsstring \<Rightarrow> jsstring list" where
  "split_from cur [] = [rev cur]"
| "split_from cur (c # cs) =
     (if is_space c then rev cur # split_from [] (dropWhile is_space cs)
      else split_from (c # cur) cs)"
  by pat_completeness auto
termination
  by (relation "measure (\<lambda>(cur, s). length s)")
     (auto simp: length_dropWhile_le less_Suc_eq_le)

definition split_ws :: "jsstring \<Rightarrow> jsstring list" where
  "split_ws s = split_from [] s"

text \<open>\<open>s.split(',')\<close>: splitting at every occurrence of one code unit.\<close>

fun split_on :: "16 word \<Rightarrow> jsstring \<Rightarrow> jsstring \<Rightarrow> jsstring list" where
  "split_on sep cur [] = [rev cur]"
| "split_on sep cur (c # cs) =
     (if c = sep then rev cur # split_on sep [] cs else split_on sep (c # cur) cs)"

text \<open>Reading an array at an index: \<open>undefined\<close> out of range.\<close>

definition at_index :: "'a list \<Rightarrow> nat \<Rightarrow> 'a option" where
  "at_index xs i = (if i < length xs then Some (xs ! i) else None)"

text \<open>
  \<open>Array.prototype.slice(start, end)\<close>: a negative bound counts from the end of the
  array, and both bounds are clamped to the array.
\<close>

definition slice :: "int \<Rightarrow> int \<Rightarrow> 'a list \<Rightarrow> 'a list" where
  "slice start fin xs =
     (let len = int (length xs);
          k = (if start < 0 then max (len + start) 0 else min start len);
          final = (if fin < 0 then max (len + fin) 0 else min fin len)
      in take (nat (final - k)) (drop (nat k) xs))"

text \<open>
  Truthiness of an optional string (\<open>!!s\<close>, \<open>!s\<close>, \<open>s || ""\<close>): \<open>undefined\<close>, \<open>null\<close> and
  the empty string are falsy.
\<close>

definition truthy :: "jsstring option \<Rightarrow> bool" where
  "truthy v = (case v of None \<Rightarrow> False | Some s \<Rightarrow> s \<noteq> [])"

text \<open>
  The numbers the duration field takes: an integer, or \<open>NaN\<close> when \<open>parseInt\<close> finds no
  digits in the input field. Every comparison with \<open>NaN\<close> is false.
\<close>

datatype number = NaN | Num int

definition gt_zero :: "number \<Rightarrow> bool" where
  "gt_zero d = (case d of NaN \<Rightarrow> False | Num i \<Rightarrow> 0 < i)"

text \<open>Rendering a count in a template literal: its decimal digits.\<close>

fun decimal :: "nat \<Rightarrow> jsstring" where
  "decimal n = (if n < 10 then [of_nat (48 + n)] else decimal (n div 10) @ [of_nat (48 + n mod 10)])"

declare decimal.simps [simp del]

section \<open>Types and constants of \<open>App.tsx\<close>\<close>

record ImageFile =
  name :: jsstring
  dataUrl :: jsstring
  base64 :: "jsstring option"
  mimeType :: jsstring

record ScenePrompt =
  id_scene :: int
  phase :: jsstring
  imagePrompt :: jsstring
  videoPrompt :: jsstring
  generatedImageUrl :: "jsstring option"
  isLoading :: "bool option"
  generationFailed :: "bool option"

datatype toast_type = success | error | warning | info

record ToastMessage =
  id_toast :: jsstring
  type_toast :: toast_type
  title :: jsstring
  message :: jsstring
  persistent :: "bool option"

definition SCENE_DURATION_SECONDS :: int where
  "SCENE_DURATION_SECONDS = 8"

definition MAX_REFERENCE_IMAGES :: int where
  "MAX_REFERENCE_IMAGES = 3"

definition MAX_CONCURRENT_GENERATIONS :: nat where
  "MAX_CONCURRENT_GENERATIONS = 4"

text \<open>
  A file handed over by a file input. What \<open>FileReader\<close> reads from it is a property of
  the file: \<open>None\<close> when the read fails (the reader's \<open>onerror\<close>).
\<close>

record File =
  file_name :: jsstring
  file_type :: jsstring
  asDataURL :: "jsstring option"
  asText :: "jsstring option"

text \<open>
  The state of the \<open>App\<close> component: one field for each \<open>useState\<close>, and the identifiers
  of the toasts for which \<open>addToast\<close> has scheduled the removal after 5000 ms.
\<close>

record app =
  scenario :: jsstring
  duration :: number
  referenceImages :: "ImageFile list"
  scriptFileName :: "jsstring option"
  scriptContent :: "jsstring option"
  prompts :: "ScenePrompt list"
  isBuilding :: bool
  isBatchGenerating :: bool
  hasApiKey :: bool
  toasts :: "ToastMessage list"
  timers :: "jsstring list"

definition initial :: app where
  "initial = \<lparr> scenario = [], duration = Num 1, referenceImages = [], scriptFileName = None,
     scriptContent = None, prompts = [], isBuilding = False, isBatchGenerating = False,
     hasApiKey = False, toasts = [], timers = [] \<rparr>"

section \<open>Utility functions and toasts\<close>

datatype thrown = Error jsstring | NonError

definition fileToDataUrl :: "File \<Rightarrow> thrown + (jsstring \<times> jsstring)" where
  "fileToDataUrl file =
     (case asDataURL file of None \<Rightarrow> Inl NonError | Some d \<Rightarrow> Inr (d, file_type file))"

definition dataUrlToBase64 :: "jsstring \<Rightarrow> jsstring option" where
  "dataUrlToBase64 d = at_index (split_on 0x2C [] d) 1"

text \<open>
  \<open>addToast\<close>: the identifier is drawn at random by the source and is a parameter here.
  A toast that is not persistent gets a timer for its removal.
\<close>

definition addToast :: "jsstring \<Rightarrow> toast_type \<Rightarrow> jsstring \<Rightarrow> jsstring \<Rightarrow> bool option \<Rightarrow> app \<Rightarrow> app" where
  "addToast tid ty ttl msg pers s =
     s\<lparr> toasts := toasts s @ [\<lparr> id_toast = tid, type_toast = ty, title = ttl, message = msg,
                                persistent = pers \<rparr>],
        timers := (if pers = Some True then timers s else timers s @ [tid]) \<rparr>"

definition removeToast :: "jsstring \<Rightarrow> app \<Rightarrow> app" where
  "removeToast tid s = s\<lparr> toasts := filter (\<lambda>t. id_toast t \<noteq> tid) (toasts s) \<rparr>"

section \<open>The control panel: \<open>canBuild\<close>\<close>

definition canBuild :: "app \<Rightarrow> bool" where
  "canBuild s \<longleftrightarrow>
     int (length (referenceImages s)) = MAX_REFERENCE_IMAGES \<and>
     (truthy (scriptFileName s) \<or> trim (scenario s) \<noteq> []) \<and>
     gt_zero (duration s)"

section \<open>File handlers\<close>

text \<open>
  \<open>Promise.all\<close> over promises that have all settled: the array of the values, or the
  rejection of a member that rejected.
\<close>

fun Promise_all :: "(thrown + 'a) list \<Rightarrow> thrown + 'a list" where
  "Promise_all [] = Inr []"
| "Promise_all (Inl e # ps) = Inl e"
| "Promise_all (Inr v # ps) = (case Promise_all ps of Inl e \<Rightarrow> Inl e | Inr vs \<Rightarrow> Inr (v # vs))"

definition toImageFile :: "File \<Rightarrow> thrown + ImageFile" where
  "toImageFile file =
     (case fileToDataUrl file of
        Inl e \<Rightarrow> Inl e
      | Inr (d, m) \<Rightarrow>
          Inr \<lparr> name = file_name file, dataUrl = d, base64 = dataUrlToBase64 d, mimeType = m \<rparr>)"

text \<open>
  \<open>handleImageUpload\<close>. The handler reads \<open>referenceImages\<close> from the render it was
  created in (\<open>snap\<close>) to decide how many files to convert, and, once they are converted,
  passes an updater to \<open>setReferenceImages\<close>, which runs on the state of that moment
  (\<open>cur\<close>). \<open>files\<close> is \<open>e.target.files\<close>. A file that cannot be read rejects the
  handler's promise and the state stays as it is.
\<close>

definition handleImageUpload :: "File list option \<Rightarrow> app \<Rightarrow> app \<Rightarrow> thrown + app" where
  "handleImageUpload files snap cur =
     (case files of
        None \<Rightarrow> Inr cur
      | Some newFiles \<Rightarrow>
          (case Promise_all (map toImageFile
                  (slice 0 (MAX_REFERENCE_IMAGES - int (length (referenceImages snap))) newFiles)) of
             Inl e \<Rightarrow> Inl e
           | Inr processed \<Rightarrow>
               Inr (cur\<lparr> referenceImages :=
                      slice 0 MAX_REFERENCE_IMAGES (referenceImages cur @ processed) \<rparr>)))"

text \<open>
  \<open>Math.ceil(wordCount / 150)\<close> on a count of pieces. The quotient is taken exactly (the
  floating-point quotient of the source has the same ceiling for every count a file can
  have).
\<close>

definition script_onload :: "jsstring \<Rightarrow> app \<Rightarrow> app" where
  "script_onload text s =
     (let wordCount = length (split_ws text)
      in s\<lparr> scriptContent := Some text, duration := Num \<lceil>real wordCount / 150\<rceil> \<rparr>)"

definition handleScriptUpload :: "File list option \<Rightarrow> app \<Rightarrow> app" where
  "handleScriptUpload files s =
     (case (case files of None \<Rightarrow> None | Some fs \<Rightarrow> at_index fs 0) of
        None \<Rightarrow> s
      | Some file \<Rightarrow>
          (let s1 = s\<lparr> scriptFileName := Some (file_name file) \<rparr>
           in case asText file of None \<Rightarrow> s1 | Some text \<Rightarrow> script_onload text s1))"

definition handleRemoveScript :: "app \<Rightarrow> app" where
  "handleRemoveScript s = s\<lparr> scriptFileName := None, scriptContent := None, duration := Num 1 \<rparr>"

section \<open>Prompt generation\<close>

text \<open>
  What the text-generation call comes back with: a rejection, or a response whose \<open>text\<close>
  may be undefined. \<open>JSON.parse\<close> is a parameter of \<open>buildPrompts\<close>: it throws or returns
  the value that the source casts to \<open>ScenePrompt[]\<close> unchecked.
\<close>

datatype ai_outcome = CallRejected thrown | Response "jsstring option"

definition buildPrompts_begin :: "app \<Rightarrow> app" where
  "buildPrompts_begin s = s\<lparr> isBuilding := True, prompts := [] \<rparr>"

definition buildPrompts_try ::
  "(jsstring \<Rightarrow> thrown + ScenePrompt list) \<Rightarrow> ai_outcome \<Rightarrow> jsstring \<Rightarrow> app \<Rightarrow> thrown + app" where
  "buildPrompts_try JSON_parse outcome tid s =
     (case outcome of
        CallRejected e \<Rightarrow> Inl e
      | Response jsonText \<Rightarrow>
          (case jsonText of
             None \<Rightarrow> Inl (Error (ascii ''No response from AI''))
           | Some txt \<Rightarrow>
               if txt = [] then Inl (Error (ascii ''No response from AI''))
               else (case JSON_parse txt of
                       Inl e \<Rightarrow> Inl e
                     | Inr generatedData \<Rightarrow>
                         Inr (addToast tid success (ascii ''Prompts Generated'')
                                (ascii ''Successfully created '' @ decimal (length generatedData)
                                   @ ascii '' scene prompts.'') None
                                (s\<lparr> prompts := generatedData \<rparr>)))))"

definition buildPrompts_catch :: "thrown \<Rightarrow> jsstring \<Rightarrow> app \<Rightarrow> app" where
  "buildPrompts_catch err tid s =
     addToast tid error (ascii ''Generation Failed'')
       (case err of Error m \<Rightarrow> m | NonError \<Rightarrow> ascii ''Unknown error'') None s"

text \<open>
  \<open>buildPrompts\<close>: the two state updates before the \<open>try\<close>, the \<open>try\<close> block from the point
  where the call has settled, the \<open>catch\<close> and the \<open>finally\<close>. The request itself (style
  directive, narrative, duration, scene count, phases) only goes to the service.
\<close>

definition buildPrompts ::
  "(jsstring \<Rightarrow> thrown + ScenePrompt list) \<Rightarrow> ai_outcome \<Rightarrow> jsstring \<Rightarrow> app \<Rightarrow> app" where
  "buildPrompts JSON_parse outcome tid s =
     (let s1 = buildPrompts_begin s;
          s2 = (case buildPrompts_try JSON_parse outcome tid s1 of
                  Inr s' \<Rightarrow> s'
                | Inl err \<Rightarrow> buildPrompts_catch err tid s1)
      in s2\<lparr> isBuilding := False \<rparr>)"

section \<open>Image generation for one scene\<close>

text \<open>The three updaters that the handlers pass to \<open>setPrompts\<close>, each keyed by scene id.\<close>

definition markLoading :: "int \<Rightarrow> ScenePrompt list \<Rightarrow> ScenePrompt list" where
  "markLoading i prev =
     map (\<lambda>p. if id_scene p = i then p\<lparr> isLoading := Some True, generationFailed := Some False \<rparr> else p) prev"

definition setImage :: "int \<Rightarrow> jsstring \<Rightarrow> ScenePrompt list \<Rightarrow> ScenePrompt list" where
  "setImage i imageUrl prev =
     map (\<lambda>p. if id_scene p = i then p\<lparr> generatedImageUrl := Some imageUrl, isLoading := Some False \<rparr> else p) prev"

definition markFailed :: "int \<Rightarrow> ScenePrompt list \<Rightarrow> ScenePrompt list" where
  "markFailed i prev =
     map (\<lambda>p. if id_scene p = i then p\<lparr> isLoading := Some False, generationFailed := Some True \<rparr> else p) prev"

text \<open>How a call of \<open>generateImageFromPrompt\<close> settles.\<close>

datatype call_result = Resolved jsstring | Rejected thrown

definition show_int :: "int \<Rightarrow> jsstring" where
  "show_int i = (if i < 0 then ascii ''-'' @ decimal (nat (- i)) else decimal (nat i))"

definition handleGenerateImage :: "int \<Rightarrow> call_result \<Rightarrow> jsstring \<Rightarrow> app \<Rightarrow> app" where
  "handleGenerateImage i r tid s =
     (case find (\<lambda>p. id_scene p = i) (prompts s) of
        None \<Rightarrow> s
      | Some prompt \<Rightarrow>
          (let s1 = s\<lparr> prompts := markLoading i (prompts s) \<rparr>
           in case r of
                Resolved imageUrl \<Rightarrow> s1\<lparr> prompts := setImage i imageUrl (prompts s1) \<rparr>
              | Rejected e \<Rightarrow>
                  addToast tid error (ascii ''Scene '' @ show_int i @ ascii '' Error'')
                    (ascii ''Failed to generate image.'') None
                    (s1\<lparr> prompts := markFailed i (prompts s1) \<rparr>)))"

section \<open>Batch image generation\<close>

text \<open>
  What a run of \<open>handleGenerateAllImages\<close> does, in the order it does it: state updates
  of the flag, calls of \<open>generateImageFromPrompt\<close> (numbered in launch order, with the
  scene id they are for), their settlements, and the toast.
\<close>

datatype event =
    SetBatchGenerating bool
  | Launch nat int
  | Settle nat int call_result
  | AddToast toast_type jsstring "bool option"

text \<open>
  The run's own variables next to the component state: the two counters, the number of
  calls launched so far and the log of events.
\<close>

record batch =
  st :: app
  successCount :: nat
  failureCount :: nat
  calls :: nat
  trace :: "event list"

text \<open>
  A member of a chunk up to its \<open>await\<close>: the loading update and the call. \<open>chunk.map\<close>
  runs this part of every member, in order, before anything settles.
\<close>

definition member_begin :: "ScenePrompt \<Rightarrow> batch \<Rightarrow> batch" where
  "member_begin prompt b =
     b\<lparr> st := (st b)\<lparr> prompts := markLoading (id_scene prompt) (prompts (st b)) \<rparr>,
        calls := calls b + 1,
        trace := trace b @ [Launch (calls b) (id_scene prompt)] \<rparr>"

text \<open>
  The rest of the \<open>try\<close> block once the call has settled: a rejected call throws at the
  \<open>await\<close>, a resolved one stores the image and counts a success.
\<close>

definition member_try :: "call_result \<Rightarrow> ScenePrompt \<Rightarrow> batch \<Rightarrow> thrown + batch" where
  "member_try r prompt b =
     (case r of
        Rejected e \<Rightarrow> Inl e
      | Resolved imageUrl \<Rightarrow>
          Inr (b\<lparr> st := (st b)\<lparr> prompts := setImage (id_scene prompt) imageUrl (prompts (st b)) \<rparr>,
                  successCount := successCount b + 1 \<rparr>))"

definition member_catch :: "ScenePrompt \<Rightarrow> batch \<Rightarrow> batch" where
  "member_catch prompt b =
     b\<lparr> st := (st b)\<lparr> prompts := markFailed (id_scene prompt) (prompts (st b)) \<rparr>,
        failureCount := failureCount b + 1 \<rparr>"

text \<open>
  The settlement of call \<open>k\<close>, made for \<open>prompt\<close>, with result \<open>r\<close>: \<open>try\<close>, then \<open>catch\<close>
  on a throw. \<open>Inl\<close> would be a rejection of the member's own promise.
\<close>

definition member_settle :: "call_result \<Rightarrow> nat \<times> ScenePrompt \<Rightarrow> batch \<Rightarrow> thrown + batch" where
  "member_settle r m b =
     (let b1 = b\<lparr> trace := trace b @ [Settle (fst m) (id_scene (snd m)) r] \<rparr>
      in case member_try r (snd m) b1 of
           Inr b2 \<Rightarrow> Inr b2
         | Inl e \<Rightarrow> Inr (member_catch (snd m) b1))"

definition remove_nth :: "nat \<Rightarrow> 'a list \<Rightarrow> 'a list" where
  "remove_nth i xs = take i xs @ drop (Suc i) xs"

lemma length_remove_nth: "i < length xs \<Longrightarrow> length (remove_nth i xs) = length xs - 1"
  by (simp add: remove_nth_def)

text \<open>
  The joint wait on a chunk. The calls in flight settle one at a time, in an order the
  program does not control: \<open>pick\<close> chooses, at each moment (the length of the log), which
  of the calls in flight settles next, and \<open>gen k\<close> is how call \<open>k\<close> settles. A member
  promise that rejected would reject \<open>Promise.all\<close>.
\<close>

function settle_all ::
  "(nat \<Rightarrow> call_result) \<Rightarrow> (nat \<Rightarrow> nat) \<Rightarrow> (nat \<times> ScenePrompt) list \<Rightarrow> batch \<Rightarrow> thrown + batch" where
  "settle_all gen pick inflight b =
     (if inflight = [] then Inr b
      else let i = pick (length (trace b)) mod length inflight;
               m = inflight ! i
           in case member_settle (gen (fst m)) m b of
                Inl e \<Rightarrow> Inl e
              | Inr b' \<Rightarrow> settle_all gen pick (remove_nth i inflight) b')"
  by pat_completeness auto
termination
  by (relation "measure (\<lambda>(gen, pick, inflight, b). length inflight)")
     (simp_all add: length_remove_nth)

declare settle_all.simps [simp del]

definition run_chunk ::
  "(nat \<Rightarrow> call_result) \<Rightarrow> (nat \<Rightarrow> nat) \<Rightarrow> ScenePrompt list \<Rightarrow> batch \<Rightarrow> thrown + batch" where
  "run_chunk gen pick chunk b =
     settle_all gen pick (zip [calls b ..< calls b + length chunk] chunk) (fold member_begin chunk b)"

text \<open>The \<open>for\<close> loop over the chunks, from index \<open>i\<close>.\<close>

function batch_loop ::
  "(nat \<Rightarrow> call_result) \<Rightarrow> (nat \<Rightarrow> nat) \<Rightarrow> ScenePrompt list \<Rightarrow> nat \<Rightarrow> batch \<Rightarrow> thrown + batch" where
  "batch_loop gen pick pendingPrompts i b =
     (if i < length pendingPrompts
      then case run_chunk gen pick
                  (slice (int i) (int (i + MAX_CONCURRENT_GENERATIONS)) pendingPrompts) b of
             Inl e \<Rightarrow> Inl e
           | Inr b' \<Rightarrow> batch_loop gen pick pendingPrompts (i + MAX_CONCURRENT_GENERATIONS) b'
      else Inr b)"
  by pat_completeness auto
termination
  by (relation "measure (\<lambda>(gen, pick, pendingPrompts, i, b). length pendingPrompts - i)")
     (auto simp: MAX_CONCURRENT_GENERATIONS_def)

declare batch_loop.simps [simp del]

definition pending :: "ScenePrompt list \<Rightarrow> ScenePrompt list" where
  "pending ps = filter (\<lambda>p. \<not> truthy (generatedImageUrl p)) ps"

text \<open>
  \<open>handleGenerateAllImages\<close>, run on its own from state \<open>s\<close>. \<open>Inl\<close> is a rejection of the
  handler's promise; \<open>Inr\<close> carries the final state, the counters and the log.
\<close>

definition handleGenerateAllImages ::
  "(nat \<Rightarrow> call_result) \<Rightarrow> (nat \<Rightarrow> nat) \<Rightarrow> jsstring \<Rightarrow> app \<Rightarrow> thrown + batch" where
  "handleGenerateAllImages gen pick tid s =
     (if length (prompts s) = 0
      then Inr \<lparr> st = s, successCount = 0, failureCount = 0, calls = 0, trace = [] \<rparr>
      else
        let b0 = \<lparr> st = s\<lparr> isBatchGenerating := True \<rparr>, successCount = 0, failureCount = 0,
                   calls = 0, trace = [SetBatchGenerating True] \<rparr>;
            pendingPrompts = pending (prompts s)
        in case batch_loop gen pick pendingPrompts 0 b0 of
             Inl e \<Rightarrow> Inl e
           | Inr b \<Rightarrow>
               (let ty = (if failureCount b > 0 then warning else success);
                    msg = ascii ''Successfully generated: '' @ decimal (successCount b)
                            @ ascii '' images.'' @ [0x0A] @ ascii ''Failed: ''
                            @ decimal (failureCount b) @ ascii '' images.''
                in Inr (b\<lparr> st := addToast tid ty (ascii ''Batch Generation Complete'') msg (Some True)
                                   ((st b)\<lparr> isBatchGenerating := False \<rparr>),
                          trace := trace b @ [SetBatchGenerating False, AddToast ty msg (Some True)] \<rparr>)))"

text \<open>
  The button that triggers the batch is rendered with \<open>disabled={isBatchGenerating}\<close>: a
  click reaches the handler only while the flag is clear.
\<close>

definition click_generateAll ::
  "(nat \<Rightarrow> call_result) \<Rightarrow> (nat \<Rightarrow> nat) \<Rightarrow> jsstring \<Rightarrow> app \<Rightarrow> thrown + batch" where
  "click_generateAll gen pick tid s =
     (if isBatchGenerating s
      then Inr \<lparr> st = s, successCount = 0, failureCount = 0, calls = 0, trace = [] \<rparr>
      else handleGenerateAllImages gen pick tid s)"

section \<open>Spreadsheet export\<close>

text \<open>
  An object literal is the list of its keys and values in the order written; a cell
  holds a number or a string.
\<close>

datatype cell = NumCell int | StrCell jsstring

type_synonym row_object = "(jsstring \<times> cell) list"

record worksheet =
  header :: "jsstring list"
  body :: "cell option list list"

text \<open>
  \<open>XLSX.utils.json_to_sheet\<close>, \<open>book_new\<close>, \<open>book_append_sheet\<close> and \<open>writeFile\<close> belong to
  the SheetJS library, outside this repository. What they do with the arguments that
  \<open>downloadXLSX\<close> passes: with no \<open>header\<close> option, \<open>json_to_sheet\<close> collects the keys of
  the objects in order of first appearance, writes them as the first row when there
  are any, and writes one row for each object with every value under its key;
  \<open>book_append_sheet\<close> adds the sheet under the given name; \<open>writeFile\<close> saves the
  workbook under the given file name, unless a text cell holds more than 32767
  characters: then it throws and no file is written.
\<close>

definition add_keys :: "row_object \<Rightarrow> jsstring list \<Rightarrow> jsstring list" where
  "add_keys obj hdr = fold (\<lambda>kv h. if fst kv \<in> set h then h else h @ [fst kv]) obj hdr"

definition json_to_sheet :: "row_object list \<Rightarrow> worksheet" where
  "json_to_sheet js =
     (let hdr = fold add_keys js []
      in \<lparr> header = hdr, body = map (\<lambda>obj. map (map_of obj) hdr) js \<rparr>)"

type_synonym workbook = "(jsstring \<times> worksheet) list"

definition book_new :: workbook where
  "book_new = []"

definition book_append_sheet :: "workbook \<Rightarrow> worksheet \<Rightarrow> jsstring \<Rightarrow> workbook" where
  "book_append_sheet wb ws nm = wb @ [(nm, ws)]"

definition or_empty :: "jsstring option \<Rightarrow> jsstring" where
  "or_empty v = (if truthy v then (case v of Some u \<Rightarrow> u | None \<Rightarrow> []) else [])"

definition prompt_row :: "ScenePrompt \<Rightarrow> row_object" where
  "prompt_row p =
     [(ascii ''ID'', NumCell (id_scene p)),
      (ascii ''Phase'', StrCell (phase p)),
      (ascii ''Image Prompt'', StrCell (imagePrompt p)),
      (ascii ''Video Prompt'', StrCell (videoPrompt p)),
      (ascii ''Image URL'', StrCell (or_empty (generatedImageUrl p)))]"

definition text_too_long :: "cell option \<Rightarrow> bool" where
  "text_too_long c = (case c of Some (StrCell t) \<Rightarrow> 32767 < length t | _ \<Rightarrow> False)"

definition sheet_too_long :: "worksheet \<Rightarrow> bool" where
  "sheet_too_long ws \<longleftrightarrow>
     list_ex (\<lambda>h. 32767 < length h) (header ws) \<or> list_ex (list_ex text_too_long) (body ws)"

definition writeFile :: "workbook \<Rightarrow> jsstring \<Rightarrow> thrown + (jsstring \<times> workbook)" where
  "writeFile wb filename =
     (if list_ex (\<lambda>sheet. sheet_too_long (snd sheet)) wb
      then Inl (Error (ascii ''Text length must not exceed 32767 characters''))
      else Inr (filename, wb))"

text \<open>
  \<open>downloadXLSX\<close>: \<open>Inr\<close> carries the file name and the workbook of the file written, \<open>Inl\<close>
  is what \<open>XLSX.writeFile\<close> threw, which the handler does not catch.
\<close>

definition downloadXLSX :: "app \<Rightarrow> thrown + (jsstring \<times> workbook)" where
  "downloadXLSX s =
     (let worksheet = json_to_sheet (map prompt_row (prompts s));
          workbook = book_append_sheet book_new worksheet (ascii ''Prompts'')
      in writeFile workbook (ascii ''Prehistoric_Project_Prompts.xlsx''))"

section \<open>Notions of the specification\<close>

text \<open>
  The specification's reading of \<open>canBuildPlan\<close>, word for word: exactly 3 reference
  images, a non-empty script loaded or non-empty freeform text present, and a duration
  above 0.
\<close>

definition canBuildPlan_spec :: "app \<Rightarrow> bool" where
  "canBuildPlan_spec s \<longleftrightarrow>
     length (referenceImages s) = 3 \<and>
     (truthy (scriptContent s) \<or> scenario s \<noteq> []) \<and>
     gt_zero (duration s)"

text \<open>
  The specification's word count: the number of words, a word being a maximal run of
  code units that are not white space.
\<close>

fun wordCount_spec :: "jsstring \<Rightarrow> nat" where
  "wordCount_spec [] = 0"
| "wordCount_spec [c] = (if is_space c then 0 else 1)"
| "wordCount_spec (c # d # cs) =
     (if \<not> is_space c \<and> is_space d then 1 else 0) + wordCount_spec (d # cs)"

text \<open>
  The specification's \<open>generationState\<close>. The record of the source has no such field: the
  handlers write the two flags \<open>isLoading\<close> and \<open>generationFailed\<close>. A record is Pending
  from the loading update (\<open>isLoading: true\<close>), Failed from the failure update
  (\<open>generationFailed: true\<close>), Succeeded when a generation has settled on it and it is not
  marked failed, and Idle before any generation touched it.
\<close>

datatype generation_state = Idle | Pending | Succeeded | Failed

definition generationState_spec :: "ScenePrompt \<Rightarrow> generation_state" where
  "generationState_spec p =
     (if isLoading p = Some True then Pending
      else if generationFailed p = Some True then Failed
      else if isLoading p = Some False then Succeeded
      else Idle)"

text \<open>
  A scene record as plan generation delivers it: the four fields of the response
  schema and none of the optional ones.
\<close>

definition fresh :: "ScenePrompt \<Rightarrow> bool" where
  "fresh p \<longleftrightarrow> generatedImageUrl p = None \<and> isLoading p = None \<and> generationFailed p = None"

text \<open>
  The export contract of the specification: the column labels in their order, and the
  cells of the row of one scene under them.
\<close>

definition column_labels :: "jsstring list" where
  "column_labels =
     [ascii ''ID'', ascii ''Phase'', ascii ''Image Prompt'', ascii ''Video Prompt'', ascii ''Image URL'']"

definition row_cells :: "ScenePrompt \<Rightarrow> cell option list" where
  "row_cells p =
     [Some (NumCell (id_scene p)), Some (StrCell (phase p)), Some (StrCell (imagePrompt p)),
      Some (StrCell (videoPrompt p)), Some (StrCell (or_empty (generatedImageUrl p)))]"

section \<open>Reading a log of events\<close>

text \<open>
  The update of the scene sequence that goes with an event. Single-scene generation and
  the batch change the prompts through these three updaters only, so every interleaving
  of their calls takes the sequence through a list of such events.
\<close>

fun apply_event :: "event \<Rightarrow> ScenePrompt list \<Rightarrow> ScenePrompt list" where
  "apply_event (Launch k i) ps = markLoading i ps"
| "apply_event (Settle k i (Resolved imageUrl)) ps = setImage i imageUrl ps"
| "apply_event (Settle k i (Rejected e)) ps = markFailed i ps"
| "apply_event (SetBatchGenerating f) ps = ps"
| "apply_event (AddToast ty msg pers) ps = ps"

text \<open>The same update on one record: \<open>apply_event\<close> maps it over the sequence.\<close>

fun touch :: "event \<Rightarrow> ScenePrompt \<Rightarrow> ScenePrompt" where
  "touch (Launch k i) p =
     (if id_scene p = i then p\<lparr> isLoading := Some True, generationFailed := Some False \<rparr> else p)"
| "touch (Settle k i (Resolved imageUrl)) p =
     (if id_scene p = i then p\<lparr> generatedImageUrl := Some imageUrl, isLoading := Some False \<rparr> else p)"
| "touch (Settle k i (Rejected e)) p =
     (if id_scene p = i then p\<lparr> isLoading := Some False, generationFailed := Some True \<rparr> else p)"
| "touch (SetBatchGenerating f) p = p"
| "touch (AddToast ty msg pers) p = p"

text \<open>
  What the updates keep true of a record: once a generation has settled on it without
  the failure mark, the image field is set; and the image field is only set on a record
  that a generation has touched.
\<close>

definition settled_ok :: "ScenePrompt \<Rightarrow> bool" where
  "settled_ok p \<longleftrightarrow>
     (isLoading p = Some False \<and> generationFailed p \<noteq> Some True \<longrightarrow> generatedImageUrl p \<noteq> None) \<and>
     (generatedImageUrl p \<noteq> None \<longrightarrow> isLoading p \<noteq> None)"

fun is_Launch :: "event \<Rightarrow> bool" where
  "is_Launch (Launch k i) = True"
| "is_Launch e = False"

fun is_Settle :: "event \<Rightarrow> bool" where
  "is_Settle (Settle k i r) = True"
| "is_Settle e = False"

fun is_AddToast :: "event \<Rightarrow> bool" where
  "is_AddToast (AddToast ty msg pers) = True"
| "is_AddToast e = False"

text \<open>The calls launched, in order, as pairs of call number and scene id.\<close>

fun launched :: "event list \<Rightarrow> (nat \<times> int) list" where
  "launched [] = []"
| "launched (Launch k i # es) = (k, i) # launched es"
| "launched (e # es) = launched es"

text \<open>The numbers of the calls that have settled.\<close>

fun settled :: "event list \<Rightarrow> nat list" where
  "settled [] = []"
| "settled (Settle k i r # es) = k # settled es"
| "settled (e # es) = settled es"

text \<open>The number of calls launched and not yet settled at the end of a log.\<close>

definition outstanding :: "event list \<Rightarrow> int" where
  "outstanding es = int (length (launched es)) - int (length (settled es))"

text \<open>
  The groups of a log: the call numbers of each maximal run of launches with no other
  event in between. \<open>cur\<close> is the run being read, latest first.
\<close>

fun launch_groups :: "nat list \<Rightarrow> event list \<Rightarrow> nat list list" where
  "launch_groups cur [] = (if cur = [] then [] else [rev cur])"
| "launch_groups cur (Launch k i # es) = launch_groups (k # cur) es"
| "launch_groups cur (e # es) =
     (if cur = [] then launch_groups [] es else rev cur # launch_groups [] es)"

text \<open>
  In a batch over the pending scenes \<open>pend\<close>, call \<open>k\<close> is the call for \<open>pend ! k\<close> and
  settles as \<open>gen k\<close> says.
\<close>

definition launch_of :: "ScenePrompt list \<Rightarrow> nat \<Rightarrow> event" where
  "launch_of pend k = Launch k (id_scene (pend ! k))"

definition settle_of :: "(nat \<Rightarrow> call_result) \<Rightarrow> ScenePrompt list \<Rightarrow> nat \<Rightarrow> event" where
  "settle_of gen pend k = Settle k (id_scene (pend ! k)) (gen k)"

text \<open>
  The shape of the log of the loop from index \<open>i\<close>: for each chunk, the launches of its
  calls in order, then the settlements of the same calls in some order, then the next
  chunk.
\<close>

inductive batch_trace :: "(nat \<Rightarrow> call_result) \<Rightarrow> ScenePrompt list \<Rightarrow> nat \<Rightarrow> event list \<Rightarrow> bool"
  for gen :: "nat \<Rightarrow> call_result" and pend :: "ScenePrompt list" where
  finished: "length pend \<le> i \<Longrightarrow> batch_trace gen pend i []"
| chunk: "i < length pend \<Longrightarrow> hi = min (i + 4) (length pend) \<Longrightarrow> mset perm = mset [i..<hi] \<Longrightarrow>
      batch_trace gen pend (i + 4) rest \<Longrightarrow>
      batch_trace gen pend i (map (launch_of pend) [i..<hi] @ map (settle_of gen pend) perm @ rest)"

fun is_success :: "event \<Rightarrow> bool" where
  "is_success (Settle k i (Resolved imageUrl)) = True"
| "is_success e = False"

fun is_failure :: "event \<Rightarrow> bool" where
  "is_failure (Settle k i (Rejected e)) = True"
| "is_failure e = False"

text \<open>
  The variables of a run are determined by its log: the prompts are the initial ones
  with the updates of the log applied, the counters count the settlements of each kind,
  and nothing else of the state changes while the loop runs.
\<close>

definition consistent :: "app \<Rightarrow> batch \<Rightarrow> bool" where
  "consistent s b \<longleftrightarrow>
     st b = s\<lparr> isBatchGenerating := True, prompts := fold apply_event (trace b) (prompts s) \<rparr> \<and>
     successCount b = length (filter is_success (trace b)) \<and>
     failureCount b = length (filter is_failure (trace b)) \<and>
     calls b = length (launched (trace b))"

text \<open>
  The barrier between groups, checked along a log: when call \<open>k\<close> is launched, every
  call of an earlier group of four has settled. \<open>sofar\<close> holds the calls settled so far.
\<close>

fun barrier_ok :: "nat list \<Rightarrow> event list \<Rightarrow> bool" where
  "barrier_ok sofar [] = True"
| "barrier_ok sofar (Launch k i # es) = ((\<forall>a < 4 * (k div 4). a \<in> set sofar) \<and> barrier_ok sofar es)"
| "barrier_ok sofar (Settle k i r # es) = barrier_ok (k # sofar) es"
| "barrier_ok sofar (e # es) = barrier_ok sofar es"

text \<open>
  The consecutive groups of at most four of the calls \<open>i\<close>, ..., \<open>n - 1\<close>.
\<close>

function call_groups :: "nat \<Rightarrow> nat \<Rightarrow> nat list list" where
  "call_groups i n = (if i < n then [i..<min (i + 4) n] # call_groups (i + 4) n else [])"
  by pat_completeness auto
termination
  by (relation "measure (\<lambda>(i, n). n - i)") auto

declare call_groups.simps [simp del]

text \<open>The message of the toast that ends a batch, for the two counts.\<close>

definition aggregate_message :: "nat \<Rightarrow> nat \<Rightarrow> jsstring" where
  "aggregate_message sc fc =
     ascii ''Successfully generated: '' @ decimal sc @ ascii '' images.'' @ [0x0A]
       @ ascii ''Failed: '' @ decimal fc @ ascii '' images.''"

text \<open>The results of the calls of a batch over \<open>n\<close> pending scenes.\<close>

definition resolved_calls :: "(nat \<Rightarrow> call_result) \<Rightarrow> nat \<Rightarrow> nat list" where
  "resolved_calls gen n = filter (\<lambda>k. case gen k of Resolved u \<Rightarrow> True | Rejected e \<Rightarrow> False) [0..<n]"

definition rejected_calls :: "(nat \<Rightarrow> call_result) \<Rightarrow> nat \<Rightarrow> nat list" where
  "rejected_calls gen n = filter (\<lambda>k. case gen k of Resolved u \<Rightarrow> False | Rejected e \<Rightarrow> True) [0..<n]"

section \<open>Sample inputs\<close>

definition sample_image :: "16 word \<Rightarrow> ImageFile" where
  "sample_image c = \<lparr> name = [c], dataUrl = [c, 0x2C, c], base64 = Some [c], mimeType = [] \<rparr>"

definition sample_file :: "16 word \<Rightarrow> File" where
  "sample_file c = \<lparr> file_name = [c], file_type = [], asDataURL = Some [c, 0x2C, c], asText = None \<rparr>"

definition three_images :: "ImageFile list" where
  "three_images = [sample_image 1, sample_image 2, sample_image 3]"

definition script_file :: "jsstring \<Rightarrow> File" where
  "script_file text =
     \<lparr> file_name = ascii ''script.txt'', file_type = ascii ''text/plain'', asDataURL = None,
       asText = Some text \<rparr>"

text \<open>A script of 150 words, each followed by a space.\<close>

definition words_150 :: jsstring where
  "words_150 = concat (replicate 150 [0x61, 0x20])"

definition sample_scene :: "int \<Rightarrow> ScenePrompt" where
  "sample_scene i =
     \<lparr> id_scene = i, phase = ascii ''Hook'', imagePrompt = ascii ''p'', videoPrompt = ascii ''v'',
       generatedImageUrl = None, isLoading = None, generationFailed = None \<rparr>"

definition sample_url :: jsstring where
  "sample_url = ascii ''data:image/png;base64,AA''"

definition sample_plan :: "app" where
  "sample_plan = initial\<lparr> prompts := [(sample_scene 1)\<lparr> generatedImageUrl := Some sample_url \<rparr>] \<rparr>"

definition regenerated :: app where
  "regenerated =
     handleGenerateImage 1 (Rejected NonError) (ascii ''t2'')
       (handleGenerateImage 1 (Resolved sample_url) (ascii ''t1'')
          (initial\<lparr> prompts := [sample_scene 1] \<rparr>))"

definition ten_scenes :: app where
  "ten_scenes = initial\<lparr> prompts := map (\<lambda>i. sample_scene (int i)) [1..<11] \<rparr>"

definition five_scenes :: app where
  "five_scenes = initial\<lparr> prompts := map (\<lambda>i. sample_scene (int i)) [1..<6] \<rparr>"

text \<open>A service that fails the calls 2, 5 and 7, and one that fails the first call only.\<close>

definition three_fail :: "nat \<Rightarrow> call_result" where
  "three_fail k = (if k = 2 \<or> k = 5 \<or> k = 7 then Rejected NonError else Resolved sample_url)"

definition first_fails :: "nat \<Rightarrow> call_result" where
  "first_fails k = (if k = 0 then Rejected NonError else Resolved sample_url)"

definition all_resolve :: "nat \<Rightarrow> call_result" where
  "all_resolve k = Resolved sample_url"

text \<open>Settlement orders: the oldest call in flight first, or by the clock.\<close>

definition oldest_first :: "nat \<Rightarrow> nat" where
  "oldest_first t = 0"

definition by_clock :: "nat \<Rightarrow> nat" where
  "by_clock t = t"

text \<open>A state in which a batch is marked as running.\<close>

definition running :: app where
  "running = initial\<lparr> prompts := [sample_scene 1], isBatchGenerating := True \<rparr>"

text \<open>A data URL of 32790 characters, and a plan whose only scene has it as its image.\<close>

definition long_url :: jsstring where
  "long_url = ascii ''data:image/png;base64,'' @ replicate 32768 0x41"

definition long_image_plan :: app where
  "long_image_plan = initial\<lparr> prompts := [(sample_scene 1)\<lparr> generatedImageUrl := Some long_url \<rparr>] \<rparr>"

text \<open>
  A plan of twelve scenes: scenes 3 and 8 have an image, scene 5 has none and is marked
  failed, scene 9 has the empty string as its image URL, the others are untouched.
\<close>

definition twelve_scenes :: app where
  "twelve_scenes = initial\<lparr> prompts :=
     [sample_scene 1, sample_scene 2,
      (sample_scene 3)\<lparr> generatedImageUrl := Some sample_url, isLoading := Some False,
                         generationFailed := Some False \<rparr>,
      sample_scene 4,
      (sample_scene 5)\<lparr> isLoading := Some False, generationFailed := Some True \<rparr>,
      sample_scene 6, sample_scene 7,
      (sample_scene 8)\<lparr> generatedImageUrl := Some sample_url \<rparr>,
      (sample_scene 9)\<lparr> generatedImageUrl := Some [] \<rparr>,
      sample_scene 10, sample_scene 11, sample_scene 12] \<rparr>"

definition no_parse :: "jsstring \<Rightarrow> thrown + ScenePrompt list" where
  "no_parse txt = Inl (Error (ascii ''Unexpected token''))"

section \<open>Properties of the control panel and the file handlers\<close>

lemma trim_nonempty_iff: "trim s \<noteq> [] \<longleftrightarrow> (\<exists>c\<in>set s. \<not> is_space c)"
proof -
  have drop_iff: "(\<exists>c\<in>set (dropWhile is_space xs). \<not> is_space c) \<longleftrightarrow> (\<exists>c\<in>set xs. \<not> is_space c)" for xs
  proof
    assume "\<exists>c\<in>set (dropWhile is_space xs). \<not> is_space c"
    then show "\<exists>c\<in>set xs. \<not> is_space c" by (meson set_dropWhileD)
  next
    assume "\<exists>c\<in>set xs. \<not> is_space c"
    then obtain c where c: "c \<in> set xs" "\<not> is_space c" by blast
    have "set xs = set (takeWhile is_space xs) \<union> set (dropWhile is_space xs)"
      by (metis set_append takeWhile_dropWhile_id)
    with c have "c \<in> set (dropWhile is_space xs)"
      by (auto dest: set_takeWhileD)
    with c show "\<exists>c\<in>set (dropWhile is_space xs). \<not> is_space c" by blast
  qed
  have "trim s \<noteq> [] \<longleftrightarrow> (\<exists>c\<in>set (rev (dropWhile is_space s)). \<not> is_space c)"
    by (simp add: trim_def dropWhile_eq_Nil_conv)
  also have "\<dots> \<longleftrightarrow> (\<exists>c\<in>set s. \<not> is_space c)"
    using drop_iff [of s] by simp
  finally show ?thesis .
qed

text \<open>
  C6, as the specification words it, fails: with three reference images, no script, a
  duration of 1 and a scenario that is a single space, non-empty freeform text is
  present, yet \<open>canBuild\<close> is false, because the source trims the scenario first.
\<close>

theorem C6_canBuild_not_spec:
  "canBuildPlan_spec (initial\<lparr> referenceImages := three_images, scenario := [0x20] \<rparr>) \<and>
   \<not> canBuild (initial\<lparr> referenceImages := three_images, scenario := [0x20] \<rparr>)"
  by (simp add: canBuildPlan_spec_def canBuild_def initial_def truthy_def gt_zero_def trim_def
      is_space_def MAX_REFERENCE_IMAGES_def three_images_def)

text \<open>
  C6, amended: \<open>canBuild\<close> is true if and only if exactly 3 reference images are present,
  and a script file with a non-empty name is selected or the scenario holds a code unit
  that is not white space, and the duration is a number above 0.
\<close>

theorem C6_canBuild_iff:
  "canBuild s \<longleftrightarrow>
     length (referenceImages s) = 3 \<and>
     ((\<exists>n. scriptFileName s = Some n \<and> n \<noteq> []) \<or> (\<exists>c\<in>set (scenario s). \<not> is_space c)) \<and>
     (\<exists>d. duration s = Num d \<and> 0 < d)"
proof -
  have 1: "truthy (scriptFileName s) \<longleftrightarrow> (\<exists>n. scriptFileName s = Some n \<and> n \<noteq> [])"
    by (simp add: truthy_def split: option.splits)
  have 2: "gt_zero (duration s) \<longleftrightarrow> (\<exists>d. duration s = Num d \<and> 0 < d)"
    by (simp add: gt_zero_def split: number.splits)
  show ?thesis
    unfolding canBuild_def 1 2 trim_nonempty_iff MAX_REFERENCE_IMAGES_def by auto
qed

lemma Promise_all_Inr: "Promise_all (map Inr xs) = Inr xs"
  by (induction xs) simp_all

lemma slice_0: "0 \<le> k \<Longrightarrow> slice 0 k xs = take (nat k) xs"
  by (auto simp: slice_def Let_def min_def)

lemma take_append_take:
  "n - length xs \<le> k \<Longrightarrow> take n (xs @ take k ys) = take n (xs @ ys)"
  by (simp add: min_def)

text \<open>
  C7: when the files convert to \<open>imgs\<close>, in upload order, an upload leaves the store
  with the images it held, then \<open>imgs\<close>, cut to the first 3, and the handler does not
  reject. \<open>snap\<close> is the state the handler was created in and \<open>cur\<close> the state its update
  runs on: images are only ever appended, so \<open>cur\<close> holds at least those of \<open>snap\<close>.
  Whatever the files and the states, the store holds at most 3 images after an upload.
\<close>

theorem C7_addImages:
  "(map toImageFile files = map Inr imgs \<and>
    length (referenceImages snap) \<le> length (referenceImages cur) \<and>
    length (referenceImages snap) \<le> 3 \<longrightarrow>
      handleImageUpload (Some files) snap cur =
        Inr (cur\<lparr> referenceImages := take 3 (referenceImages cur @ imgs) \<rparr>)) \<and>
   (handleImageUpload (Some files) snap cur = Inr r \<longrightarrow> length (referenceImages r) \<le> 3)"
proof (intro conjI impI)
  assume a: "map toImageFile files = map Inr imgs \<and>
    length (referenceImages snap) \<le> length (referenceImages cur) \<and>
    length (referenceImages snap) \<le> 3"
  define k where "k = 3 - length (referenceImages snap)"
  have sl: "slice 0 (MAX_REFERENCE_IMAGES - int (length (referenceImages snap))) files = take k files"
    using a by (simp add: slice_0 MAX_REFERENCE_IMAGES_def k_def nat_diff_distrib')
  have "map toImageFile (take k files) = map Inr (take k imgs)"
    using a by (simp add: take_map [symmetric])
  then have pa: "Promise_all (map toImageFile (take k files)) = Inr (take k imgs)"
    by (simp add: Promise_all_Inr)
  have "3 - length (referenceImages cur) \<le> k"
    using a by (auto simp: k_def)
  then have tk: "take 3 (referenceImages cur @ take k imgs) = take 3 (referenceImages cur @ imgs)"
    by (rule take_append_take)
  have sl3: "slice 0 MAX_REFERENCE_IMAGES xs = take 3 xs" for xs :: "ImageFile list"
    by (simp add: slice_0 MAX_REFERENCE_IMAGES_def)
  have "handleImageUpload (Some files) snap cur =
        Inr (cur\<lparr> referenceImages := take 3 (referenceImages cur @ take k imgs) \<rparr>)"
    by (simp only: handleImageUpload_def option.case sl pa sl3 sum.case)
  with tk show "handleImageUpload (Some files) snap cur =
        Inr (cur\<lparr> referenceImages := take 3 (referenceImages cur @ imgs) \<rparr>)"
    by simp
next
  assume "handleImageUpload (Some files) snap cur = Inr r"
  then show "length (referenceImages r) \<le> 3"
    by (auto simp: handleImageUpload_def slice_0 MAX_REFERENCE_IMAGES_def split: sum.splits)
qed

text \<open>
  C7 at an input: 5 files uploaded to the empty store leave exactly the first 3, in
  upload order.
\<close>

theorem C7_addImages_witness:
  "handleImageUpload
     (Some [sample_file 1, sample_file 2, sample_file 3, sample_file 4, sample_file 5])
     initial initial =
     Inr (initial\<lparr> referenceImages := [sample_image 1, sample_image 2, sample_image 3] \<rparr>) \<and>
   length (referenceImages
     (initial\<lparr> referenceImages := [sample_image 1, sample_image 2, sample_image 3] \<rparr>)) \<le> 3"
proof -
  have conv: "map toImageFile
      [sample_file 1, sample_file 2, sample_file 3, sample_file 4, sample_file 5] =
    map Inr [sample_image 1, sample_image 2, sample_image 3, sample_image 4, sample_image 5]"
    by (simp add: toImageFile_def fileToDataUrl_def sample_file_def sample_image_def
        dataUrlToBase64_def at_index_def)
  have len: "length (referenceImages initial) \<le> length (referenceImages initial) \<and>
    length (referenceImages initial) \<le> 3"
    by (simp add: initial_def)
  from C7_addImages [of "[sample_file 1, sample_file 2, sample_file 3, sample_file 4, sample_file 5]"
      "[sample_image 1, sample_image 2, sample_image 3, sample_image 4, sample_image 5]"
      initial initial
      "initial\<lparr> referenceImages := [sample_image 1, sample_image 2, sample_image 3] \<rparr>"] conv len
  show ?thesis by (simp add: initial_def)
qed

section \<open>Properties of the script upload\<close>

lemma wordCount_spec_space: "is_space c \<Longrightarrow> wordCount_spec (c # s) = wordCount_spec s"
  by (cases s) simp_all

lemma wordCount_spec_dropWhile: "wordCount_spec (dropWhile is_space s) = wordCount_spec s"
  by (induction s) (simp_all add: wordCount_spec_space)

lemma last_dropWhile: "dropWhile P s \<noteq> [] \<Longrightarrow> last (dropWhile P s) = last s"
  by (metis last_appendR takeWhile_dropWhile_id)

lemma dropWhile_Nil_last: "dropWhile P s = [] \<Longrightarrow> s \<noteq> [] \<Longrightarrow> P (last s)"
  by (simp add: dropWhile_eq_Nil_conv)

lemma length_split_from:
  "length (split_from cur s) =
     wordCount_spec s + (if s = [] \<or> is_space (hd s) then 1 else 0)
       + (if s \<noteq> [] \<and> is_space (last s) then 1 else 0)"
proof (induction cur s rule: split_from.induct)
  case (1 cur)
  show ?case by simp
next
  case (2 cur c cs)
  show ?case
  proof (cases "is_space c")
    case True
    let ?d = "dropWhile is_space cs"
    have ih: "length (split_from [] ?d) =
      wordCount_spec ?d + (if ?d = [] \<or> is_space (hd ?d) then 1 else 0)
       + (if ?d \<noteq> [] \<and> is_space (last ?d) then 1 else 0)"
      using 2(1) [OF True] .
    have w: "wordCount_spec (c # cs) = wordCount_spec ?d"
      by (simp add: wordCount_spec_space True wordCount_spec_dropWhile)
    show ?thesis
    proof (cases "?d = []")
      case dn: True
      have "is_space (last (c # cs))"
        using dn True by (cases "cs = []") (auto dest: dropWhile_Nil_last)
      with True dn ih w show ?thesis by simp
    next
      case dn: False
      then have "cs \<noteq> []" by auto
      with dn have "last (c # cs) = last ?d" by (simp add: last_dropWhile)
      moreover have "\<not> is_space (hd ?d)" using dn by (rule hd_dropWhile)
      ultimately show ?thesis using True dn ih w by simp
    qed
  next
    case False
    have ih: "length (split_from (c # cur) cs) =
      wordCount_spec cs + (if cs = [] \<or> is_space (hd cs) then 1 else 0)
       + (if cs \<noteq> [] \<and> is_space (last cs) then 1 else 0)"
      using 2(2) [OF False] .
    show ?thesis
    proof (cases cs)
      case Nil
      with False ih show ?thesis by simp
    next
      case (Cons d ds)
      with False ih show ?thesis by simp
    qed
  qed
qed

lemma split_from_nonempty: "split_from cur s \<noteq> []"
  by (induction cur s rule: split_from.induct) auto

lemma split_from_replicate:
  "\<not> is_space a \<Longrightarrow> is_space b \<Longrightarrow> length (split_from cur (concat (replicate n [a, b]))) = Suc n"
proof (induction n arbitrary: cur)
  case 0
  show ?case by simp
next
  case (Suc n)
  have "dropWhile is_space (concat (replicate n [a, b])) = concat (replicate n [a, b])"
    using Suc.prems(1) by (cases n) simp_all
  with Suc show ?case by simp
qed

lemma wordCount_spec_replicate:
  "\<not> is_space a \<Longrightarrow> is_space b \<Longrightarrow> wordCount_spec (concat (replicate n [a, b])) = n"
  by (induction n) (simp_all add: wordCount_spec_space)

lemma words_150_pieces: "length (split_ws words_150) = 151"
  unfolding words_150_def split_ws_def
  by (subst split_from_replicate) (simp_all add: is_space_def)

lemma words_150_words: "wordCount_spec words_150 = 150"
  unfolding words_150_def
  by (subst wordCount_spec_replicate) (simp_all add: is_space_def)

text \<open>
  C8 at a failing input: for a script of 150 words, each followed by a space, the source
  derives 2 minutes, where the claim gives the ceiling of 150 / 150, which is 1. The
  source takes the number of pieces of \<open>split(/\s+/)\<close> for the word count, and the empty
  piece after the trailing white space is one of them.
\<close>

theorem C8_not_word_count:
  "duration (handleScriptUpload (Some [script_file words_150]) initial) = Num 2 \<and>
   \<lceil>real (wordCount_spec words_150) / 150\<rceil> = 1"
proof -
  have "handleScriptUpload (Some [script_file words_150]) initial =
      script_onload words_150 (initial\<lparr> scriptFileName := Some (ascii ''script.txt'') \<rparr>)"
    by (simp add: handleScriptUpload_def at_index_def script_file_def)
  then have "duration (handleScriptUpload (Some [script_file words_150]) initial) = Num 2"
    by (simp add: script_onload_def Let_def words_150_pieces)
  moreover have "\<lceil>real (wordCount_spec words_150) / 150\<rceil> = 1"
    by (simp add: words_150_words)
  ultimately show ?thesis by simp
qed

text \<open>
  Where the count is right: a script that is read, is not empty and neither starts nor
  ends with white space sets the duration to the ceiling of w / 150, where w is the
  number of its words. Whatever the text, the derived duration is at least 1, and
  removing the script sets the duration to 1.
\<close>

lemma script_duration:
  "(asText file = Some text \<and> text \<noteq> [] \<and> \<not> is_space (hd text) \<and> \<not> is_space (last text) \<longrightarrow>
      handleScriptUpload (Some (file # files)) s =
        s\<lparr> scriptFileName := Some (file_name file), scriptContent := Some text,
           duration := Num \<lceil>real (wordCount_spec text) / 150\<rceil> \<rparr>) \<and>
   (asText file = Some text \<longrightarrow>
      (\<exists>d. duration (handleScriptUpload (Some (file # files)) s) = Num d \<and> 1 \<le> d)) \<and>
   duration (handleRemoveScript s) = Num 1"
proof (intro conjI impI)
  assume a: "asText file = Some text \<and> text \<noteq> [] \<and> \<not> is_space (hd text) \<and> \<not> is_space (last text)"
  then have "length (split_ws text) = wordCount_spec text"
    unfolding split_ws_def length_split_from by simp
  with a show "handleScriptUpload (Some (file # files)) s =
        s\<lparr> scriptFileName := Some (file_name file), scriptContent := Some text,
           duration := Num \<lceil>real (wordCount_spec text) / 150\<rceil> \<rparr>"
    by (simp add: handleScriptUpload_def at_index_def script_onload_def Let_def)
next
  assume a: "asText file = Some text"
  have "split_ws text \<noteq> []"
    unfolding split_ws_def by (rule split_from_nonempty)
  then have pos: "1 \<le> \<lceil>real (length (split_ws text)) / 150\<rceil>"
    by (simp add: one_le_ceiling)
  from a have "duration (handleScriptUpload (Some (file # files)) s) =
      Num \<lceil>real (length (split_ws text)) / 150\<rceil>"
    by (simp add: handleScriptUpload_def at_index_def script_onload_def Let_def)
  with pos show "\<exists>d. duration (handleScriptUpload (Some (file # files)) s) = Num d \<and> 1 \<le> d"
    by blast
next
  show "duration (handleRemoveScript s) = Num 1"
    by (simp add: handleRemoveScript_def)
qed

text \<open>A script of three words gives a duration of 1.\<close>

lemma script_duration_example:
  "handleScriptUpload (Some [script_file (ascii ''a mammoth hunt'')]) initial =
     initial\<lparr> scriptFileName := Some (ascii ''script.txt''),
              scriptContent := Some (ascii ''a mammoth hunt''), duration := Num 1 \<rparr>"
proof -
  have a: "asText (script_file (ascii ''a mammoth hunt'')) = Some (ascii ''a mammoth hunt'') \<and>
      ascii ''a mammoth hunt'' \<noteq> [] \<and> \<not> is_space (hd (ascii ''a mammoth hunt'')) \<and>
      \<not> is_space (last (ascii ''a mammoth hunt''))"
    by (simp add: script_file_def ascii_def is_space_def)
  have w: "wordCount_spec (ascii ''a mammoth hunt'') = 3"
    by (simp add: ascii_def is_space_def)
  have c: "\<lceil>real (3::nat) / 150\<rceil> = 1"
    by (rule ceiling_unique) simp_all
  from script_duration [of "script_file (ascii ''a mammoth hunt'')" "ascii ''a mammoth hunt''"
      "[]" initial, THEN conjunct1, THEN mp, OF a]
  show ?thesis
    unfolding w c by (simp add: script_file_def)
qed

section \<open>Properties of plan generation and of the export\<close>

text \<open>
  C10: \<open>buildPrompts\<close> empties the scene sequence before the call to the service. When
  the response has no text, or an empty one, or a text that \<open>JSON.parse\<close> rejects, the run
  ends with the scene sequence empty, whatever it held before, with the building flag
  cleared and one error toast added.
\<close>

theorem C10_plan_lost_on_failure:
  "prompts (buildPrompts_begin s) = [] \<and>
   ((outcome = Response None \<or> outcome = Response (Some []) \<or>
     (\<exists>txt e. outcome = Response (Some txt) \<and> JSON_parse txt = Inl e)) \<longrightarrow>
      prompts (buildPrompts JSON_parse outcome tid s) = [] \<and>
      \<not> isBuilding (buildPrompts JSON_parse outcome tid s) \<and>
      map type_toast (toasts (buildPrompts JSON_parse outcome tid s)) = map type_toast (toasts s) @ [error])"
proof (intro conjI impI)
  show "prompts (buildPrompts_begin s) = []"
    by (simp add: buildPrompts_begin_def)
next
  assume a: "outcome = Response None \<or> outcome = Response (Some []) \<or>
     (\<exists>txt e. outcome = Response (Some txt) \<and> JSON_parse txt = Inl e)"
  then have "\<exists>err. buildPrompts_try JSON_parse outcome tid (buildPrompts_begin s) = Inl err"
    by (auto simp: buildPrompts_try_def)
  then obtain err where t: "buildPrompts_try JSON_parse outcome tid (buildPrompts_begin s) = Inl err"
    by blast
  then have r: "buildPrompts JSON_parse outcome tid s =
      (buildPrompts_catch err tid (buildPrompts_begin s))\<lparr> isBuilding := False \<rparr>"
    by (simp add: buildPrompts_def Let_def)
  show "prompts (buildPrompts JSON_parse outcome tid s) = []"
    unfolding r by (simp add: buildPrompts_catch_def addToast_def buildPrompts_begin_def)
  show "\<not> isBuilding (buildPrompts JSON_parse outcome tid s)"
    unfolding r by simp
  show "map type_toast (toasts (buildPrompts JSON_parse outcome tid s)) = map type_toast (toasts s) @ [error]"
    unfolding r by (simp add: buildPrompts_catch_def addToast_def buildPrompts_begin_def)
qed

text \<open>
  C10 at an input: a plan of one scene with its generated image is gone after a
  response that does not parse.
\<close>

theorem C10_plan_lost_on_failure_witness:
  "prompts sample_plan \<noteq> [] \<and>
   prompts (buildPrompts no_parse (Response (Some (ascii ''[{''))) (ascii ''t1'') sample_plan) = []"
  using C10_plan_lost_on_failure [of sample_plan "Response (Some (ascii ''[{''))" no_parse
      "ascii ''t1''"]
  by (simp add: sample_plan_def no_parse_def)

lemma add_keys_fresh: "add_keys (prompt_row p) [] = column_labels"
  by (simp add: add_keys_def prompt_row_def column_labels_def ascii_def)

lemma add_keys_again: "add_keys (prompt_row p) column_labels = column_labels"
  by (simp add: add_keys_def prompt_row_def column_labels_def ascii_def)

lemma fold_add_keys: "fold add_keys (map prompt_row ps) column_labels = column_labels"
  by (induction ps) (simp_all add: add_keys_again)

lemma header_rows: "ps \<noteq> [] \<Longrightarrow> fold add_keys (map prompt_row ps) [] = column_labels"
  by (cases ps) (simp_all add: add_keys_fresh fold_add_keys)

lemma cells_of_row: "map (map_of (prompt_row p)) column_labels = row_cells p"
  by (simp add: prompt_row_def column_labels_def row_cells_def ascii_def)

lemma sheet_of_plan:
  "ps \<noteq> [] \<Longrightarrow>
   json_to_sheet (map prompt_row ps) = \<lparr> header = column_labels, body = map row_cells ps \<rparr>"
  by (simp add: json_to_sheet_def Let_def header_rows cells_of_row)

lemma downloadXLSX_sheet:
  "prompts s \<noteq> [] \<Longrightarrow>
   downloadXLSX s =
     writeFile [(ascii ''Prompts'', \<lparr> header = column_labels, body = map row_cells (prompts s) \<rparr>)]
       (ascii ''Prehistoric_Project_Prompts.xlsx'')"
  by (simp add: downloadXLSX_def sheet_of_plan book_append_sheet_def book_new_def)

text \<open>
  C9 at a failing input: for a plan whose scene has a generated image with a data URL
  of more than 32767 characters, \<open>XLSX.writeFile\<close> throws on the Image URL cell and
  \<open>downloadXLSX\<close> writes no file, where the claim has it produce the sheet with that cell.
\<close>

theorem C9_export_fails_on_long_url:
  "prompts long_image_plan \<noteq> [] \<and>
   downloadXLSX long_image_plan =
     Inl (Error (ascii ''Text length must not exceed 32767 characters''))"
proof -
  have ne: "prompts long_image_plan \<noteq> []"
    by (simp add: long_image_plan_def)
  have "32767 < length long_url"
    by (simp add: long_url_def ascii_def)
  then have "text_too_long (row_cells ((sample_scene 1)\<lparr> generatedImageUrl := Some long_url \<rparr>) ! 4)"
    by (auto simp: row_cells_def text_too_long_def or_empty_def truthy_def)
  then have "list_ex text_too_long (row_cells ((sample_scene 1)\<lparr> generatedImageUrl := Some long_url \<rparr>))"
    by (simp add: row_cells_def)
  then have "downloadXLSX long_image_plan =
     Inl (Error (ascii ''Text length must not exceed 32767 characters''))"
    unfolding downloadXLSX_sheet [OF ne]
    by (simp add: long_image_plan_def writeFile_def sheet_too_long_def)
  with ne show ?thesis by simp
qed

text \<open>
  Where no text cell is too long, the export of a scene sequence that is not empty is one
  sheet named "Prompts" under the file name "Prehistoric_Project_Prompts.xlsx", with the
  header row ID, Phase, Image Prompt, Video Prompt, Image URL and one row for each scene
  in order, the Image URL cell being the empty string for a scene without image. For the
  empty sequence the sheet has no header row, since the labels are the keys of the row
  objects.
\<close>

lemma labels_short: "\<not> list_ex (\<lambda>h. 32767 < length h) column_labels"
  by (simp add: column_labels_def ascii_def)

lemma export_within_limit:
  assumes "prompts s \<noteq> []"
    and "\<forall>p\<in>set (prompts s). \<not> list_ex text_too_long (row_cells p)"
  shows "downloadXLSX s =
        Inr (ascii ''Prehistoric_Project_Prompts.xlsx'',
          [(ascii ''Prompts'', \<lparr> header = column_labels, body = map row_cells (prompts s) \<rparr>)])"
proof -
  from assms(2) have "\<not> list_ex (list_ex text_too_long) (map row_cells (prompts s))"
    by (simp add: list_ex_iff)
  then show ?thesis
    unfolding downloadXLSX_sheet [OF assms(1)]
    by (simp add: writeFile_def sheet_too_long_def labels_short)
qed

lemma export_empty_plan:
  "downloadXLSX initial =
     Inr (ascii ''Prehistoric_Project_Prompts.xlsx'',
       [(ascii ''Prompts'', \<lparr> header = [], body = [] \<rparr>)])"
  by (simp add: downloadXLSX_def json_to_sheet_def book_append_sheet_def book_new_def initial_def
      writeFile_def sheet_too_long_def)

lemma empty_image_cell: "\<not> truthy (generatedImageUrl p) \<Longrightarrow> row_cells p ! 4 = Some (StrCell [])"
  by (simp add: row_cells_def or_empty_def)

section \<open>Properties of the scene records\<close>

lemma apply_event_map: "apply_event e ps = map (touch e) ps"
  by (cases "(e, ps)" rule: apply_event.cases)
     (simp_all add: markLoading_def setImage_def markFailed_def map_idI)

lemma fold_apply_event_map: "fold apply_event evs ps = map (fold touch evs) ps"
  by (induction evs arbitrary: ps) (simp_all add: apply_event_map)

lemma settled_ok_fresh: "fresh p \<Longrightarrow> settled_ok p"
  by (simp add: fresh_def settled_ok_def)

lemma settled_ok_touch: "settled_ok p \<Longrightarrow> settled_ok (touch e p)"
  by (cases "(e, p)" rule: touch.cases) (auto simp: settled_ok_def)

lemma settled_ok_fold: "settled_ok p \<Longrightarrow> settled_ok (fold touch evs p)"
  by (induction evs arbitrary: p) (simp_all add: settled_ok_touch)

lemma markFailed_keeps_image: "map generatedImageUrl (markFailed i ps) = map generatedImageUrl ps"
  by (simp add: markFailed_def)

text \<open>
  C5 fails on a failed regeneration: after one successful and then one failed run of
  \<open>handleGenerateImage\<close> on the same scene, the record still holds the image of the first
  run and is marked failed, so the image is present and the state is Failed.
\<close>

theorem C5_failed_regeneration:
  "map generatedImageUrl (prompts regenerated) = [Some sample_url] \<and>
   map generationState_spec (prompts regenerated) = [Failed]"
  by (simp add: regenerated_def handleGenerateImage_def markLoading_def setImage_def markFailed_def
      addToast_def sample_scene_def initial_def generationState_spec_def)

text \<open>
  C5, amended: in every state that a freshly generated plan reaches through loading,
  success and failure updates, in any number and order (which covers every interleaving
  of single-scene and batch generation), a record that is Succeeded has a generated
  image, and a record with a generated image is not Idle. The failure update leaves the
  image of every record as it was, so that a record with an image can be Failed, and
  Pending while a regeneration is in flight.
\<close>

theorem C5_image_and_state:
  "(list_all fresh plan \<longrightarrow>
      (\<forall>p\<in>set (fold apply_event evs plan).
         (generationState_spec p = Succeeded \<longrightarrow> generatedImageUrl p \<noteq> None) \<and>
         (generatedImageUrl p \<noteq> None \<longrightarrow> generationState_spec p \<noteq> Idle))) \<and>
   map generatedImageUrl (markFailed i ps) = map generatedImageUrl ps"
proof (intro conjI impI ballI)
  fix p
  assume f: "list_all fresh plan" and p: "p \<in> set (fold apply_event evs plan)"
  from p obtain q where q: "q \<in> set plan" and pq: "p = fold touch evs q"
    by (auto simp: fold_apply_event_map)
  from f q have "fresh q" by (simp add: list_all_iff)
  then have ok: "settled_ok p"
    unfolding pq by (intro settled_ok_fold settled_ok_fresh)
  {
    assume "generationState_spec p = Succeeded"
    with ok show "generatedImageUrl p \<noteq> None"
      by (auto simp: generationState_spec_def settled_ok_def split: if_splits)
  }
  {
    assume "generatedImageUrl p \<noteq> None"
    with ok show "generationState_spec p \<noteq> Idle"
      by (auto simp: generationState_spec_def settled_ok_def split: if_splits)
  }
next
  show "map generatedImageUrl (markFailed i ps) = map generatedImageUrl ps"
    by (rule markFailed_keeps_image)
qed

text \<open>C5 at an input: one scene, loaded and then settled with an image.\<close>

theorem C5_image_and_state_witness:
  "list_all fresh [sample_scene 1] \<and>
   generationState_spec
     (hd (fold apply_event [Launch 0 1, Settle 0 1 (Resolved sample_url)] [sample_scene 1])) = Succeeded \<and>
   generatedImageUrl
     (hd (fold apply_event [Launch 0 1, Settle 0 1 (Resolved sample_url)] [sample_scene 1])) \<noteq> None"
proof -
  let ?ps = "fold apply_event [Launch 0 1, Settle 0 1 (Resolved sample_url)] [sample_scene 1]"
  have f: "list_all fresh [sample_scene 1]"
    by (simp add: fresh_def sample_scene_def)
  have m: "hd ?ps \<in> set ?ps"
    by (simp add: markLoading_def setImage_def)
  have s: "generationState_spec (hd ?ps) = Succeeded"
    by (simp add: markLoading_def setImage_def sample_scene_def generationState_spec_def)
  from C5_image_and_state [of "[sample_scene 1]" "[Launch 0 1, Settle 0 1 (Resolved sample_url)]"] f m s
  show ?thesis by blast
qed

section \<open>Properties of the batch\<close>

subsection \<open>Single steps\<close>

lemma member_begin_simps:
  "trace (member_begin p b) = trace b @ [Launch (calls b) (id_scene p)]"
  "calls (member_begin p b) = calls b + 1"
  "successCount (member_begin p b) = successCount b"
  "failureCount (member_begin p b) = failureCount b"
  "st (member_begin p b) = (st b)\<lparr> prompts := markLoading (id_scene p) (prompts (st b)) \<rparr>"
  by (simp_all add: member_begin_def)

lemma member_settle_Resolved:
  "member_settle (Resolved u) m b =
     Inr (b\<lparr> trace := trace b @ [Settle (fst m) (id_scene (snd m)) (Resolved u)],
             st := (st b)\<lparr> prompts := setImage (id_scene (snd m)) u (prompts (st b)) \<rparr>,
             successCount := successCount b + 1 \<rparr>)"
  by (simp add: member_settle_def member_try_def Let_def)

lemma member_settle_Rejected:
  "member_settle (Rejected e) m b =
     Inr (b\<lparr> trace := trace b @ [Settle (fst m) (id_scene (snd m)) (Rejected e)],
             st := (st b)\<lparr> prompts := markFailed (id_scene (snd m)) (prompts (st b)) \<rparr>,
             failureCount := failureCount b + 1 \<rparr>)"
  by (simp add: member_settle_def member_try_def member_catch_def Let_def)

lemma member_settle_total:
  "\<exists>b'. member_settle r m b = Inr b' \<and> trace b' = trace b @ [Settle (fst m) (id_scene (snd m)) r] \<and>
        calls b' = calls b"
  by (cases r) (simp_all add: member_settle_Resolved member_settle_Rejected)

lemma launched_append: "launched (xs @ ys) = launched xs @ launched ys"
  by (induction xs rule: launched.induct) simp_all

lemma settled_append: "settled (xs @ ys) = settled xs @ settled ys"
  by (induction xs rule: settled.induct) simp_all

lemma consistent_member_begin: "consistent s b \<Longrightarrow> consistent s (member_begin p b)"
  by (simp add: consistent_def member_begin_simps launched_append)

lemma consistent_member_settle:
  "member_settle r m b = Inr b' \<Longrightarrow> consistent s b \<Longrightarrow> consistent s b'"
  by (cases r) (auto simp: consistent_def member_settle_Resolved member_settle_Rejected launched_append)

subsection \<open>The loops keep the variables consistent with the log\<close>

lemma consistent_fold_begin: "consistent s b \<Longrightarrow> consistent s (fold member_begin chunk b)"
  by (induction chunk arbitrary: b) (simp_all add: consistent_member_begin)

lemma consistent_settle_all:
  "settle_all gen pick inflight b = Inr b' \<Longrightarrow> consistent s b \<Longrightarrow> consistent s b'"
proof (induction gen pick inflight b rule: settle_all.induct)
  case (1 gen pick inflight b)
  show ?case
  proof (cases "inflight = []")
    case True
    with 1 show ?thesis by (simp add: settle_all.simps)
  next
    case False
    define i where "i = pick (length (trace b)) mod length inflight"
    define m where "m = inflight ! i"
    obtain b1 where b1: "member_settle (gen (fst m)) m b = Inr b1"
      using member_settle_total by blast
    from "1.prems"(1) False b1 have rest: "settle_all gen pick (remove_nth i inflight) b1 = Inr b'"
      by (simp add: settle_all.simps [of gen pick inflight b] Let_def i_def m_def)
    have "consistent s b1"
      using b1 "1.prems"(2) by (rule consistent_member_settle)
    with "1.IH" [OF False i_def m_def b1 rest] show ?thesis .
  qed
qed

lemma consistent_run_chunk:
  "run_chunk gen pick chunk b = Inr b' \<Longrightarrow> consistent s b \<Longrightarrow> consistent s b'"
  unfolding run_chunk_def by (blast intro: consistent_settle_all consistent_fold_begin)

lemma consistent_batch_loop:
  "batch_loop gen pick pend i b = Inr b' \<Longrightarrow> consistent s b \<Longrightarrow> consistent s b'"
proof (induction gen pick pend i b rule: batch_loop.induct)
  case (1 gen pick pend i b)
  show ?case
  proof (cases "i < length pend")
    case False
    with "1.prems" show ?thesis by (simp add: batch_loop.simps)
  next
    case True
    let ?chunk = "slice (int i) (int (i + MAX_CONCURRENT_GENERATIONS)) pend"
    from "1.prems"(1) True obtain b1 where
      c: "run_chunk gen pick ?chunk b = Inr b1" and
      l: "batch_loop gen pick pend (i + MAX_CONCURRENT_GENERATIONS) b1 = Inr b'"
      by (auto simp: batch_loop.simps [of gen pick pend i b] split: sum.splits)
    from c "1.prems"(2) have "consistent s b1" by (rule consistent_run_chunk)
    with "1.IH" [OF True c l] show ?thesis .
  qed
qed

subsection \<open>The shape of the log\<close>

lemma fold_member_begin:
  "trace (fold member_begin chunk b) =
     trace b @ map (\<lambda>(k, p). Launch k (id_scene p)) (zip [calls b..<calls b + length chunk] chunk) \<and>
   calls (fold member_begin chunk b) = calls b + length chunk"
proof (induction chunk arbitrary: b)
  case Nil
  show ?case by simp
next
  case (Cons p ps)
  have u: "[calls b..<calls b + length (p # ps)] = calls b # [Suc (calls b)..<Suc (calls b) + length ps]"
    by (subst upt_rec) simp
  show ?case
    unfolding u using Cons [of "member_begin p b"] by (simp add: member_begin_simps)
qed

lemma slice_chunk:
  "i < length xs \<Longrightarrow> slice (int i) (int (i + MAX_CONCURRENT_GENERATIONS)) xs = take 4 (drop i xs)"
  by (auto simp: slice_def MAX_CONCURRENT_GENERATIONS_def Let_def min_def nat_diff_distrib' nat_add_distrib)

lemma zip_chunk:
  assumes "i < length xs"
  shows "zip [i..<i + length (take 4 (drop i xs))] (take 4 (drop i xs)) =
         map (\<lambda>k. (k, xs ! k)) [i..<min (i + 4) (length xs)]"
proof (rule nth_equalityI)
  show "length (zip [i..<i + length (take 4 (drop i xs))] (take 4 (drop i xs))) =
        length (map (\<lambda>k. (k, xs ! k)) [i..<min (i + 4) (length xs)])"
    using assms by (auto simp: min_def)
next
  fix j
  assume "j < length (zip [i..<i + length (take 4 (drop i xs))] (take 4 (drop i xs)))"
  then have j: "j < 4" "i + j < length xs" by auto
  then show "zip [i..<i + length (take 4 (drop i xs))] (take 4 (drop i xs)) ! j =
        map (\<lambda>k. (k, xs ! k)) [i..<min (i + 4) (length xs)] ! j"
    by (auto simp: min_def)
qed

lemma mset_remove_nth: "i < length xs \<Longrightarrow> add_mset (xs ! i) (mset (remove_nth i xs)) = mset xs"
proof -
  assume "i < length xs"
  then have "xs = take i xs @ xs ! i # drop (Suc i) xs" by (rule id_take_nth_drop)
  then have "mset xs = mset (take i xs @ xs ! i # drop (Suc i) xs)" by simp
  then show ?thesis by (simp add: remove_nth_def)
qed

lemma set_remove_nth: "set (remove_nth i xs) \<subseteq> set xs"
  by (auto simp: remove_nth_def dest: in_set_takeD in_set_dropD)

lemma settle_all_trace:
  "\<forall>m\<in>set inflight. snd m = pend ! fst m \<Longrightarrow>
   \<exists>b' perm. settle_all gen pick inflight b = Inr b' \<and> mset perm = mset (map fst inflight) \<and>
     trace b' = trace b @ map (settle_of gen pend) perm \<and> calls b' = calls b"
proof (induction gen pick inflight b rule: settle_all.induct)
  case (1 gen pick inflight b)
  show ?case
  proof (cases "inflight = []")
    case True
    then show ?thesis by (simp add: settle_all.simps)
  next
    case False
    define i where "i = pick (length (trace b)) mod length inflight"
    define m where "m = inflight ! i"
    from False have il: "i < length inflight" by (simp add: i_def)
    then have mi: "m \<in> set inflight" by (simp add: m_def)
    obtain b1 where b1: "member_settle (gen (fst m)) m b = Inr b1"
      and t1: "trace b1 = trace b @ [Settle (fst m) (id_scene (snd m)) (gen (fst m))]"
      and c1: "calls b1 = calls b"
      using member_settle_total [of "gen (fst m)" m b] by (elim exE conjE)
    from mi "1.prems" have sm: "snd m = pend ! fst m" by blast
    have sub: "\<forall>m\<in>set (remove_nth i inflight). snd m = pend ! fst m"
      using "1.prems" set_remove_nth [of i inflight] by (meson subsetD)
    from "1.IH" [OF False i_def m_def b1 sub] obtain b' perm where
      r: "settle_all gen pick (remove_nth i inflight) b1 = Inr b'" and
      p: "mset perm = mset (map fst (remove_nth i inflight))" and
      t: "trace b' = trace b1 @ map (settle_of gen pend) perm" and
      c: "calls b' = calls b1"
      by (elim exE conjE)
    have s: "settle_all gen pick inflight b = Inr b'"
      using False b1 r by (simp add: settle_all.simps [of gen pick inflight b] Let_def i_def m_def)
    have "mset (map fst inflight) = image_mset fst (mset inflight)" by simp
    also have "\<dots> = image_mset fst (add_mset m (mset (remove_nth i inflight)))"
      using mset_remove_nth [OF il] by (simp add: m_def)
    finally have pm: "mset (fst m # perm) = mset (map fst inflight)"
      using p by simp
    have tr: "trace b' = trace b @ map (settle_of gen pend) (fst m # perm)"
      using t t1 sm by (simp add: settle_of_def)
    show ?thesis
      by (intro exI conjI) (rule s, rule pm, rule tr, simp add: c c1)
  qed
qed

lemma run_chunk_trace:
  assumes "i < length pend" and "calls b = i"
  shows "\<exists>b' perm. run_chunk gen pick (slice (int i) (int (i + MAX_CONCURRENT_GENERATIONS)) pend) b = Inr b' \<and>
     mset perm = mset [i..<min (i + 4) (length pend)] \<and>
     trace b' = trace b @ map (launch_of pend) [i..<min (i + 4) (length pend)]
                  @ map (settle_of gen pend) perm \<and>
     calls b' = min (i + 4) (length pend)"
proof -
  let ?chunk = "take 4 (drop i pend)"
  let ?hi = "min (i + 4) (length pend)"
  let ?b1 = "fold member_begin ?chunk b"
  have z: "zip [calls b..<calls b + length ?chunk] ?chunk = map (\<lambda>k. (k, pend ! k)) [i..<?hi]"
    using zip_chunk [OF assms(1)] assms(2) by simp
  have t1: "trace ?b1 = trace b @ map (launch_of pend) [i..<?hi]"
    using fold_member_begin [of ?chunk b] unfolding z by (simp add: launch_of_def comp_def)
  have c1: "calls ?b1 = ?hi"
    using fold_member_begin [of ?chunk b] assms by (auto simp: min_def)
  have "\<forall>m\<in>set (map (\<lambda>k. (k, pend ! k)) [i..<?hi]). snd m = pend ! fst m" by simp
  from settle_all_trace [OF this, of gen pick ?b1] obtain b' perm where
    s: "settle_all gen pick (map (\<lambda>k. (k, pend ! k)) [i..<?hi]) ?b1 = Inr b'" and
    p: "mset perm = mset (map fst (map (\<lambda>k. (k, pend ! k)) [i..<?hi]))" and
    t: "trace b' = trace ?b1 @ map (settle_of gen pend) perm" and
    c: "calls b' = calls ?b1"
    by (elim exE conjE)
  have r: "run_chunk gen pick (slice (int i) (int (i + MAX_CONCURRENT_GENERATIONS)) pend) b = Inr b'"
    unfolding run_chunk_def slice_chunk [OF assms(1)] z using s .
  from p have p': "mset perm = mset [i..<?hi]" by (simp add: comp_def)
  show ?thesis
    by (intro exI conjI) (rule r, rule p', simp add: t t1, simp add: c c1)
qed

lemma batch_loop_trace:
  "calls b = min i (length pend) \<Longrightarrow>
   \<exists>b' tr. batch_loop gen pick pend i b = Inr b' \<and> trace b' = trace b @ tr \<and>
     batch_trace gen pend i tr"
proof (induction gen pick pend i b rule: batch_loop.induct)
  case (1 gen pick pend i b)
  show ?case
  proof (cases "i < length pend")
    case False
    then have "batch_loop gen pick pend i b = Inr b" by (simp add: batch_loop.simps)
    moreover from False have "batch_trace gen pend i []" by (simp add: batch_trace.finished)
    ultimately show ?thesis by simp
  next
    case True
    let ?hi = "min (i + 4) (length pend)"
    let ?chunk = "slice (int i) (int (i + MAX_CONCURRENT_GENERATIONS)) pend"
    from True "1.prems" have cb: "calls b = i" by simp
    from run_chunk_trace [OF True cb, of gen pick] obtain b1 perm where
      r: "run_chunk gen pick ?chunk b = Inr b1" and
      p: "mset perm = mset [i..<?hi]" and
      t: "trace b1 = trace b @ map (launch_of pend) [i..<?hi] @ map (settle_of gen pend) perm" and
      c: "calls b1 = ?hi"
      by (elim exE conjE)
    from c have c': "calls b1 = min (i + MAX_CONCURRENT_GENERATIONS) (length pend)"
      by (simp add: MAX_CONCURRENT_GENERATIONS_def)
    from "1.IH" [OF True r c'] obtain b' rest where
      l: "batch_loop gen pick pend (i + MAX_CONCURRENT_GENERATIONS) b1 = Inr b'" and
      t': "trace b' = trace b1 @ rest" and
      s: "batch_trace gen pend (i + MAX_CONCURRENT_GENERATIONS) rest"
      by (elim exE conjE)
    from s have s4: "batch_trace gen pend (i + 4) rest"
      by (simp add: MAX_CONCURRENT_GENERATIONS_def)
    have "batch_loop gen pick pend i b = Inr b'"
      using True r l by (simp add: batch_loop.simps [of gen pick pend i b])
    moreover have "trace b' = trace b @ (map (launch_of pend) [i..<?hi] @ map (settle_of gen pend) perm @ rest)"
      using t t' by simp
    moreover have "batch_trace gen pend i (map (launch_of pend) [i..<?hi] @ map (settle_of gen pend) perm @ rest)"
      using True p s4 by (intro batch_trace.chunk) simp_all
    ultimately show ?thesis by (intro exI conjI)
  qed
qed

subsection \<open>What the shape of the log gives\<close>

lemma launched_launches: "launched (map (launch_of pend) ks) = map (\<lambda>k. (k, id_scene (pend ! k))) ks"
  by (induction ks) (simp_all add: launch_of_def)

lemma launched_settles: "launched (map (settle_of gen pend) ks) = []"
  by (induction ks) (simp_all add: settle_of_def)

lemma settled_launches: "settled (map (launch_of pend) ks) = []"
  by (induction ks) (simp_all add: launch_of_def)

lemma settled_settles: "settled (map (settle_of gen pend) ks) = ks"
  by (induction ks) (simp_all add: settle_of_def)

lemma upt_chunk: "i < n \<Longrightarrow> [i..<min (i + 4) n] @ [i + 4..<n] = [i..<n]"
proof (cases "i + 4 \<le> n")
  case True
  then have "[i..<n] = [i..<i + 4] @ [i + 4..<n]"
    by (metis le_add1 le_Suc_ex upt_add_eq_append)
  with True show ?thesis by (simp add: min_def)
next
  case False
  then show ?thesis by (simp add: min_def)
qed

lemma batch_trace_launched:
  "batch_trace gen pend i tr \<Longrightarrow>
   launched tr = map (\<lambda>k. (k, id_scene (pend ! k))) [i..<length pend]"
proof (induction rule: batch_trace.induct)
  case (finished i)
  then show ?case by simp
next
  case (chunk i hi perm rest)
  have "launched (map (launch_of pend) [i..<hi] @ map (settle_of gen pend) perm @ rest) =
      map (\<lambda>k. (k, id_scene (pend ! k))) ([i..<hi] @ [i + 4..<length pend])"
    by (simp add: launched_append launched_launches launched_settles chunk.IH)
  also have "[i..<hi] @ [i + 4..<length pend] = [i..<length pend]"
    unfolding chunk.hyps(2) using chunk.hyps(1) by (rule upt_chunk)
  finally show ?case .
qed

lemma batch_trace_settled:
  "batch_trace gen pend i tr \<Longrightarrow> mset (settled tr) = mset [i..<length pend]"
proof (induction rule: batch_trace.induct)
  case (finished i)
  then show ?case by simp
next
  case (chunk i hi perm rest)
  have "mset (settled (map (launch_of pend) [i..<hi] @ map (settle_of gen pend) perm @ rest)) =
      mset ([i..<hi] @ [i + 4..<length pend])"
    by (simp add: settled_append settled_launches settled_settles chunk.IH chunk.hyps(3))
  also have "[i..<hi] @ [i + 4..<length pend] = [i..<length pend]"
    unfolding chunk.hyps(2) using chunk.hyps(1) by (rule upt_chunk)
  finally show ?case .
qed

lemma filter_success_launches: "filter is_success (map (launch_of pend) ks) = []"
  by (induction ks) (simp_all add: launch_of_def)

lemma filter_failure_launches: "filter is_failure (map (launch_of pend) ks) = []"
  by (induction ks) (simp_all add: launch_of_def)

lemma is_success_settle_of:
  "is_success (settle_of gen pend k) = (case gen k of Resolved u \<Rightarrow> True | Rejected e \<Rightarrow> False)"
  by (simp add: settle_of_def split: call_result.splits)

lemma is_failure_settle_of:
  "is_failure (settle_of gen pend k) = (case gen k of Resolved u \<Rightarrow> False | Rejected e \<Rightarrow> True)"
  by (simp add: settle_of_def split: call_result.splits)

lemma length_filter_mset: "mset xs = mset ys \<Longrightarrow> length (filter P xs) = length (filter P ys)"
  by (metis mset_filter size_mset)

lemma batch_trace_counts:
  "batch_trace gen pend i tr \<Longrightarrow>
   length (filter is_success tr) =
     length (filter (\<lambda>k. case gen k of Resolved u \<Rightarrow> True | Rejected e \<Rightarrow> False) [i..<length pend]) \<and>
   length (filter is_failure tr) =
     length (filter (\<lambda>k. case gen k of Resolved u \<Rightarrow> False | Rejected e \<Rightarrow> True) [i..<length pend])"
proof (induction rule: batch_trace.induct)
  case (finished i)
  then show ?case by simp
next
  case (chunk i hi perm rest)
  let ?S = "\<lambda>k. case gen k of Resolved u \<Rightarrow> True | Rejected e \<Rightarrow> False"
  let ?F = "\<lambda>k. case gen k of Resolved u \<Rightarrow> False | Rejected e \<Rightarrow> True"
  have u: "[i..<length pend] = [i..<hi] @ [i + 4..<length pend]"
    unfolding chunk.hyps(2) using chunk.hyps(1) by (rule upt_chunk [symmetric])
  have s: "length (filter is_success (map (settle_of gen pend) perm)) = length (filter ?S [i..<hi])"
    using length_filter_mset [OF chunk.hyps(3), of ?S]
    by (simp add: filter_map comp_def is_success_settle_of)
  have f: "length (filter is_failure (map (settle_of gen pend) perm)) = length (filter ?F [i..<hi])"
    using length_filter_mset [OF chunk.hyps(3), of ?F]
    by (simp add: filter_map comp_def is_failure_settle_of)
  show ?case
    unfolding u using s f chunk.IH
    by (simp add: filter_success_launches filter_failure_launches)
qed

lemma launch_groups_launches:
  "launch_groups cur (map (launch_of pend) ks @ es) = launch_groups (rev ks @ cur) es"
  by (induction ks arbitrary: cur) (simp_all add: launch_of_def)

lemma launch_groups_settles_Nil:
  "launch_groups [] (map (settle_of gen pend) ks @ es) = launch_groups [] es"
  by (induction ks) (simp_all add: settle_of_def)

lemma launch_groups_settles:
  assumes "ks \<noteq> []" and "cur \<noteq> []"
  shows "launch_groups cur (map (settle_of gen pend) ks @ es) = rev cur # launch_groups [] es"
proof (cases ks)
  case Nil
  with assms show ?thesis by simp
next
  case (Cons k ks')
  from assms(2) have "launch_groups cur (settle_of gen pend k # map (settle_of gen pend) ks' @ es) =
      rev cur # launch_groups [] (map (settle_of gen pend) ks' @ es)"
    by (simp add: settle_of_def)
  then show ?thesis
    unfolding Cons by (simp add: launch_groups_settles_Nil)
qed

lemma batch_trace_groups:
  "batch_trace gen pend i tr \<Longrightarrow> launch_groups [] post = [] \<Longrightarrow>
   launch_groups [] (tr @ post) = call_groups i (length pend)"
proof (induction rule: batch_trace.induct)
  case (finished i)
  then show ?case by (simp add: call_groups.simps [of i])
next
  case (chunk i hi perm rest)
  from chunk.hyps(1,2) have ne: "[i..<hi] \<noteq> []" by auto
  then have pe: "perm \<noteq> []" using chunk.hyps(3) by (metis mset_zero_iff)
  have "launch_groups [] ((map (launch_of pend) [i..<hi] @ map (settle_of gen pend) perm @ rest) @ post) =
      launch_groups (rev [i..<hi]) (map (settle_of gen pend) perm @ rest @ post)"
    by (simp add: launch_groups_launches)
  also have "\<dots> = [i..<hi] # launch_groups [] (rest @ post)"
    using pe ne by (simp add: launch_groups_settles)
  also have "\<dots> = [i..<hi] # call_groups (i + 4) (length pend)"
    using chunk.IH [OF chunk.prems] by simp
  also have "\<dots> = call_groups i (length pend)"
    using chunk.hyps(1,2) by (simp add: call_groups.simps [of i])
  finally show ?case .
qed

lemma outstanding_append: "outstanding (xs @ ys) = outstanding xs + outstanding ys"
  by (simp add: outstanding_def launched_append settled_append)

lemma outstanding_launches: "outstanding (map (launch_of pend) ks) = int (length ks)"
  by (simp add: outstanding_def launched_launches settled_launches)

lemma outstanding_settles: "outstanding (map (settle_of gen pend) ks) = - int (length ks)"
  by (simp add: outstanding_def launched_settles settled_settles)

lemma batch_trace_outstanding:
  "batch_trace gen pend i tr \<Longrightarrow> outstanding tr = 0 \<and> (\<forall>m. outstanding (take m tr) \<le> 4)"
proof (induction rule: batch_trace.induct)
  case (finished i)
  show ?case by (simp add: outstanding_def)
next
  case (chunk i hi perm rest)
  let ?L = "map (launch_of pend) [i..<hi]"
  let ?S = "map (settle_of gen pend) perm"
  have lp: "length perm = length [i..<hi]"
    using chunk.hyps(3) by (metis size_mset)
  have l4: "length [i..<hi] \<le> 4"
    using chunk.hyps(2) by auto
  have blk: "outstanding (?L @ ?S @ es) = outstanding es" for es
    using lp by (simp add: outstanding_append outstanding_launches outstanding_settles)
  have zero: "outstanding (?L @ ?S @ rest) = 0"
    using chunk.IH by (simp only: blk)
  have bound: "outstanding (take m (?L @ ?S @ rest)) \<le> 4" for m
  proof (cases "m \<le> length ?L + length ?S")
    case True
    have "take m (?L @ ?S @ rest) =
        map (launch_of pend) (take m [i..<hi]) @ map (settle_of gen pend) (take (m - length ?L) perm)"
      using True by (simp add: take_map)
    then have "outstanding (take m (?L @ ?S @ rest)) =
        outstanding (map (launch_of pend) (take m [i..<hi])) +
        outstanding (map (settle_of gen pend) (take (m - length ?L) perm))"
      by (simp only: outstanding_append)
    also have "\<dots> \<le> int (length (take m [i..<hi]))"
      by (simp add: outstanding_launches outstanding_settles)
    also have "\<dots> \<le> 4"
      using l4 by simp
    finally show ?thesis .
  next
    case False
    then have "take m (?L @ ?S @ rest) = ?L @ ?S @ take (m - length ?L - length ?S) rest"
      by simp
    then have "outstanding (take m (?L @ ?S @ rest)) =
        outstanding (take (m - length ?L - length ?S) rest)"
      by (simp only: blk)
    with chunk.IH show ?thesis by simp
  qed
  from zero bound show ?case by blast
qed

lemma barrier_ok_launches:
  "barrier_ok sofar (map (launch_of pend) ks @ es) \<longleftrightarrow>
     (\<forall>k\<in>set ks. \<forall>a < 4 * (k div 4). a \<in> set sofar) \<and> barrier_ok sofar es"
  by (induction ks) (auto simp: launch_of_def)

lemma barrier_ok_settles:
  "barrier_ok sofar (map (settle_of gen pend) ks @ es) \<longleftrightarrow> barrier_ok (rev ks @ sofar) es"
  by (induction ks arbitrary: sofar) (simp_all add: settle_of_def)

lemma batch_trace_barrier:
  "batch_trace gen pend i tr \<Longrightarrow> 4 dvd i \<Longrightarrow> \<forall>a < min i (length pend). a \<in> set sofar \<Longrightarrow>
   \<forall>sf. barrier_ok sf post \<Longrightarrow> barrier_ok sofar (tr @ post)"
proof (induction arbitrary: sofar rule: batch_trace.induct)
  case (finished i)
  then show ?case by simp
next
  case (chunk i hi perm rest)
  have launches: "\<forall>k\<in>set [i..<hi]. \<forall>a < 4 * (k div 4). a \<in> set sofar"
  proof (intro ballI allI impI)
    fix k a
    assume k: "k \<in> set [i..<hi]" and a: "a < 4 * (k div 4)"
    from k chunk.hyps(2) have "i \<le> k" "k < i + 4" by auto
    with \<open>4 dvd i\<close> have "4 * (k div 4) = i" by (elim dvdE) auto
    with a chunk.hyps(1) chunk.prems(2) show "a \<in> set sofar" by simp
  qed
  have "set perm = set [i..<hi]"
    using chunk.hyps(3) by (rule mset_eq_setD)
  then have sofar': "\<forall>a < min (i + 4) (length pend). a \<in> set (rev perm @ sofar)"
    using chunk.hyps(1,2) chunk.prems(2) by (auto simp: min_def)
  from \<open>4 dvd i\<close> have "4 dvd i + 4" by simp
  from chunk.IH [OF this sofar' chunk.prems(3)] launches
  show ?case
    by (simp add: barrier_ok_launches barrier_ok_settles)
qed

lemma barrier_ok_split:
  "barrier_ok sofar tr \<Longrightarrow> tr = pre @ Launch k i # post \<Longrightarrow> a < 4 * (k div 4) \<Longrightarrow>
   a \<in> set sofar \<union> set (settled pre)"
proof (induction pre arbitrary: sofar tr)
  case Nil
  then show ?case by simp
next
  case (Cons e pre)
  then show ?case
    by (cases e) (fastforce)+
qed

lemma call_groups_concat: "concat (call_groups i n) = [i..<n]"
proof (induction i n rule: call_groups.induct)
  case (1 i n)
  show ?case
  proof (cases "i < n")
    case True
    with 1 show ?thesis by (simp add: call_groups.simps [of i n] upt_chunk)
  next
    case False
    then show ?thesis by (simp add: call_groups.simps [of i n])
  qed
qed

lemma call_groups_length: "length (call_groups i n) = (n - i + 3) div 4"
proof (induction i n rule: call_groups.induct)
  case (1 i n)
  show ?case
  proof (cases "i < n")
    case True
    with 1 have "length (call_groups i n) = Suc ((n - (i + 4) + 3) div 4)"
      by (simp add: call_groups.simps [of i n])
    also have "\<dots> = (n - i + 3) div 4"
    proof (cases "i + 4 \<le> n")
      case full: True
      then have "n - i + 3 = (n - (i + 4) + 3) + 4" by simp
      then show ?thesis by (simp only: div_add_self2)
    next
      case part: False
      with True have "4 * 1 \<le> n - i + 3" "n - i + 3 < 4 * Suc 1" by simp_all
      then have "(n - i + 3) div 4 = 1" by (rule div_nat_eqI)
      with part show ?thesis by simp
    qed
    finally show ?thesis .
  next
    case False
    then show ?thesis by (simp add: call_groups.simps [of i n])
  qed
qed

lemma call_groups_sizes: "g \<in> set (call_groups i n) \<Longrightarrow> 0 < length g \<and> length g \<le> 4"
proof (induction i n rule: call_groups.induct)
  case (1 i n)
  show ?case
  proof (cases "i < n")
    case True
    with 1 show ?thesis by (auto simp: call_groups.simps [of i n])
  next
    case False
    with 1 show ?thesis by (simp add: call_groups.simps [of i n])
  qed
qed

lemma ceiling_div_4: "\<lceil>real n / 4\<rceil> = int ((n + 3) div 4)"
proof -
  have "\<lceil>real n / 4\<rceil> = \<lceil>real_of_int (int n) / real_of_int 4\<rceil>" by simp
  also have "\<dots> = - (- int n div 4)" by (rule ceiling_divide_eq_div)
  also have "\<dots> = int ((n + 3) div 4)" by presburger
  finally show ?thesis .
qed

lemma call_groups_10: "map length (call_groups 0 10) = [4, 4, 2]"
  by (simp add: call_groups.simps)

subsection \<open>A whole run\<close>

lemma batch_run:
  assumes ne: "prompts s \<noteq> []"
  shows "\<exists>b tr. handleGenerateAllImages gen pick tid s = Inr b \<and>
      batch_trace gen (pending (prompts s)) 0 tr \<and>
      trace b = SetBatchGenerating True # tr @
        [SetBatchGenerating False,
         AddToast (if 0 < failureCount b then warning else success)
           (aggregate_message (successCount b) (failureCount b)) (Some True)] \<and>
      successCount b = length (resolved_calls gen (length (pending (prompts s)))) \<and>
      failureCount b = length (rejected_calls gen (length (pending (prompts s)))) \<and>
      calls b = length (pending (prompts s)) \<and>
      st b = s\<lparr> prompts := fold apply_event tr (prompts s), isBatchGenerating := False,
                toasts := toasts s @
                  [\<lparr> id_toast = tid, type_toast = (if 0 < failureCount b then warning else success),
                     title = ascii ''Batch Generation Complete'',
                     message = aggregate_message (successCount b) (failureCount b),
                     persistent = Some True \<rparr>] \<rparr>"
proof -
  let ?pend = "pending (prompts s)"
  let ?b0 = "\<lparr> st = s\<lparr> isBatchGenerating := True \<rparr>, successCount = 0, failureCount = 0,
               calls = 0, trace = [SetBatchGenerating True] \<rparr>"
  have c0: "consistent s ?b0"
    by (simp add: consistent_def)
  have "calls ?b0 = min 0 (length ?pend)" by simp
  from batch_loop_trace [OF this, of gen pick] obtain b1 tr where
    l: "batch_loop gen pick ?pend 0 ?b0 = Inr b1" and
    t: "trace b1 = trace ?b0 @ tr" and
    sh: "batch_trace gen ?pend 0 tr"
    by (elim exE conjE)
  from consistent_batch_loop [OF l c0] have c1: "consistent s b1" .
  from t have t1: "trace b1 = SetBatchGenerating True # tr" by simp
  from c1 have sc: "successCount b1 = length (resolved_calls gen (length ?pend))"
    using batch_trace_counts [OF sh] by (simp add: consistent_def t1 resolved_calls_def)
  from c1 have fc: "failureCount b1 = length (rejected_calls gen (length ?pend))"
    using batch_trace_counts [OF sh] by (simp add: consistent_def t1 rejected_calls_def)
  from c1 have cl: "calls b1 = length ?pend"
    using batch_trace_launched [OF sh] by (simp add: consistent_def t1)
  from c1 have st1: "st b1 = s\<lparr> isBatchGenerating := True, prompts := fold apply_event tr (prompts s) \<rparr>"
    by (simp add: consistent_def t1)
  let ?ty = "if 0 < failureCount b1 then warning else success"
  let ?msg = "aggregate_message (successCount b1) (failureCount b1)"
  let ?b = "b1\<lparr> st := addToast tid ?ty (ascii ''Batch Generation Complete'') ?msg (Some True)
                       ((st b1)\<lparr> isBatchGenerating := False \<rparr>),
                trace := trace b1 @ [SetBatchGenerating False, AddToast ?ty ?msg (Some True)] \<rparr>"
  have r: "handleGenerateAllImages gen pick tid s = Inr ?b"
    using ne l by (simp add: handleGenerateAllImages_def Let_def aggregate_message_def)
  show ?thesis
    apply (rule exI [of _ ?b])
    apply (rule exI [of _ tr])
    apply (intro conjI)
          apply (rule r)
         apply (rule sh)
        apply (simp add: t1)
       apply (simp add: sc)
      apply (simp add: fc)
     apply (simp add: cl)
    apply (simp add: st1 addToast_def)
    done
qed

lemma empty_run:
  "prompts s = [] \<Longrightarrow>
   handleGenerateAllImages gen pick tid s =
     Inr \<lparr> st = s, successCount = 0, failureCount = 0, calls = 0, trace = [] \<rparr>"
  by (simp add: handleGenerateAllImages_def)

lemma pending_Nil: "pending [] = []"
  by (simp add: pending_def)

lemma launch_groups_tail:
  "launch_groups [] [SetBatchGenerating False, AddToast ty msg pers] = []"
  by simp

lemma barrier_ok_tail: "barrier_ok sf [SetBatchGenerating False, AddToast ty msg pers]"
  by simp

lemma outstanding_other:
  "\<not> is_Launch e \<Longrightarrow> \<not> is_Settle e \<Longrightarrow> outstanding (e # es) = outstanding es"
  by (cases e) (simp_all add: outstanding_def)

lemma outstanding_run:
  assumes "outstanding tr = 0" and "\<forall>m. outstanding (take m tr) \<le> 4"
  shows "outstanding (take m (SetBatchGenerating True # tr @ [SetBatchGenerating False, AddToast ty msg pers])) \<le> 4"
proof (cases m)
  case 0
  then show ?thesis by (simp add: outstanding_def)
next
  case (Suc m')
  have "outstanding (take m' (tr @ [SetBatchGenerating False, AddToast ty msg pers])) \<le> 4"
  proof (cases "m' \<le> length tr")
    case True
    then show ?thesis using assms(2) by simp
  next
    case False
    then have "take m' (tr @ [SetBatchGenerating False, AddToast ty msg pers]) =
        tr @ take (m' - length tr) [SetBatchGenerating False, AddToast ty msg pers]"
      by simp
    moreover have "outstanding (take k [SetBatchGenerating False, AddToast ty msg pers]) = 0" for k
      by (cases k; cases "k - 1") (simp_all add: outstanding_def)
    ultimately show ?thesis using assms(1) by (simp add: outstanding_append)
  qed
  then show ?thesis using Suc by (simp add: outstanding_other)
qed

text \<open>
  The groups of a run, in terms of the list \<open>pending\<close> that the handler computes.
\<close>

lemma batch_groups:
  "\<exists>b. handleGenerateAllImages gen pick tid s = Inr b \<and>
     map snd (launched (trace b)) = map id_scene (pending (prompts s)) \<and>
     map fst (launched (trace b)) = [0..<length (pending (prompts s))] \<and>
     launch_groups [] (trace b) = call_groups 0 (length (pending (prompts s))) \<and>
     concat (launch_groups [] (trace b)) = [0..<length (pending (prompts s))] \<and>
     int (length (launch_groups [] (trace b))) = \<lceil>real (length (pending (prompts s))) / 4\<rceil> \<and>
     (\<forall>g\<in>set (launch_groups [] (trace b)). 0 < length g \<and> length g \<le> 4) \<and>
     (\<forall>pre k i post a. trace b = pre @ Launch k i # post \<and> a div 4 < k div 4 \<longrightarrow>
        a \<in> set (settled pre)) \<and>
     (\<forall>m. outstanding (take m (trace b)) \<le> 4) \<and>
     (length (pending (prompts s)) = 10 \<longrightarrow> map length (launch_groups [] (trace b)) = [4, 4, 2])"
proof (cases "prompts s = []")
  case True
  show ?thesis
    apply (rule exI [of _ "\<lparr> st = s, successCount = 0, failureCount = 0, calls = 0, trace = [] \<rparr>"])
    apply (simp add: empty_run [OF True] True pending_Nil call_groups.simps [of 0 0] outstanding_def)
    done
next
  case False
  let ?pend = "pending (prompts s)"
  let ?n = "length ?pend"
  from batch_run [OF False, of gen pick tid] obtain b tr where
    r: "handleGenerateAllImages gen pick tid s = Inr b" and
    sh: "batch_trace gen ?pend 0 tr" and
    t: "trace b = SetBatchGenerating True # tr @
        [SetBatchGenerating False,
         AddToast (if 0 < failureCount b then warning else success)
           (aggregate_message (successCount b) (failureCount b)) (Some True)]"
    by (elim exE conjE)
  let ?post = "[SetBatchGenerating False,
         AddToast (if 0 < failureCount b then warning else success)
           (aggregate_message (successCount b) (failureCount b)) (Some True)]"
  have la: "launched (trace b) = map (\<lambda>k. (k, id_scene (?pend ! k))) [0..<?n]"
    unfolding t using batch_trace_launched [OF sh] by (simp add: launched_append)
  have l1: "map snd (launched (trace b)) = map id_scene ?pend"
    unfolding la by (rule nth_equalityI) simp_all
  have l2: "map fst (launched (trace b)) = [0..<?n]"
    unfolding la by (simp add: comp_def)
  have g: "launch_groups [] (trace b) = call_groups 0 ?n"
    unfolding t using batch_trace_groups [OF sh launch_groups_tail] by simp
  have g2: "concat (launch_groups [] (trace b)) = [0..<?n]"
    unfolding g by (rule call_groups_concat)
  have g3: "int (length (launch_groups [] (trace b))) = \<lceil>real ?n / 4\<rceil>"
    unfolding g ceiling_div_4 by (simp add: call_groups_length)
  have g4: "\<forall>g\<in>set (launch_groups [] (trace b)). 0 < length g \<and> length g \<le> 4"
    unfolding g by (intro ballI call_groups_sizes)
  have bo: "barrier_ok [] (trace b)"
    unfolding t using batch_trace_barrier [OF sh, of "[]" ?post] by (simp add: barrier_ok_tail)
  have br: "\<forall>pre k i post a. trace b = pre @ Launch k i # post \<and> a div 4 < k div 4 \<longrightarrow>
        a \<in> set (settled pre)"
  proof (intro allI impI)
    fix pre k i post a
    assume a: "trace b = pre @ Launch k i # post \<and> a div 4 < k div 4"
    then have "a < 4 * (k div 4)" by (simp add: div_less_iff_less_mult mult.commute)
    from barrier_ok_split [OF bo _ this, of pre i post] a show "a \<in> set (settled pre)" by simp
  qed
  have ou: "\<forall>m. outstanding (take m (trace b)) \<le> 4"
    unfolding t using batch_trace_outstanding [OF sh] by (intro allI outstanding_run) simp_all
  have ten: "?n = 10 \<longrightarrow> map length (launch_groups [] (trace b)) = [4, 4, 2]"
    unfolding g by (simp add: call_groups_10)
  from r l1 l2 g g2 g3 g4 br ou ten show ?thesis
    by (intro exI [of _ b] conjI)
qed

lemma pending_ten: "pending (prompts ten_scenes) = prompts ten_scenes"
  by (simp add: pending_def ten_scenes_def truthy_def sample_scene_def filter_map comp_def)

lemma length_ten: "length (pending (prompts ten_scenes)) = 10"
  unfolding pending_ten by (simp add: ten_scenes_def)

lemma pending_filter:
  "pending ps = filter (\<lambda>p. generatedImageUrl p = None \<or> generatedImageUrl p = Some []) ps"
  unfolding pending_def
  by (rule filter_cong) (auto simp: truthy_def split: option.splits)

text \<open>
  C1: let the pending scenes of a state be the scenes with no image URL or an empty one,
  in the order of the scene sequence and whatever their loading and failure flags, and n
  their number. A batch run launches one call for each of them and for no other scene,
  in that order; the maximal runs of launches in its log are the consecutive groups of
  at most four of the calls 0, ..., n - 1, there are ceil(n / 4) of them, and none is
  empty; when a call is launched, every call of an earlier group has settled; at every
  moment at most 4 calls are launched and not settled; and for n = 10 the groups have the
  sizes 4, 4, 2.
\<close>

theorem C1_groups_in_sequence:
  "let imageless =
         filter (\<lambda>p. generatedImageUrl p = None \<or> generatedImageUrl p = Some []) (prompts s);
       n = length imageless
   in \<exists>b. handleGenerateAllImages gen pick tid s = Inr b \<and>
        map snd (launched (trace b)) = map id_scene imageless \<and>
        map fst (launched (trace b)) = [0..<n] \<and>
        launch_groups [] (trace b) = call_groups 0 n \<and>
        concat (launch_groups [] (trace b)) = [0..<n] \<and>
        int (length (launch_groups [] (trace b))) = \<lceil>real n / 4\<rceil> \<and>
        (\<forall>g\<in>set (launch_groups [] (trace b)). 0 < length g \<and> length g \<le> 4) \<and>
        (\<forall>pre k i post a. trace b = pre @ Launch k i # post \<and> a div 4 < k div 4 \<longrightarrow>
           a \<in> set (settled pre)) \<and>
        (\<forall>m. outstanding (take m (trace b)) \<le> 4) \<and>
        (n = 10 \<longrightarrow> map length (launch_groups [] (trace b)) = [4, 4, 2])"
  unfolding Let_def pending_filter [symmetric] by (rule batch_groups)

text \<open>
  C1 at an input: of twelve scenes, two have an image; the ten others, among them one
  marked failed and one with an empty image URL, are launched in scene order in groups
  of 4, 4 and 2.
\<close>

theorem C1_groups_in_sequence_witness:
  "length (filter (\<lambda>p. generatedImageUrl p = None \<or> generatedImageUrl p = Some [])
      (prompts twelve_scenes)) = 10 \<and>
   (\<exists>b. handleGenerateAllImages three_fail by_clock (ascii ''t1'') twelve_scenes = Inr b \<and>
        map snd (launched (trace b)) = [1, 2, 4, 5, 6, 7, 9, 10, 11, 12] \<and>
        map length (launch_groups [] (trace b)) = [4, 4, 2])"
proof -
  let ?ps = "filter (\<lambda>p. generatedImageUrl p = None \<or> generatedImageUrl p = Some [])
      (prompts twelve_scenes)"
  have ids: "map id_scene ?ps = [1, 2, 4, 5, 6, 7, 9, 10, 11, 12]"
    by (simp add: twelve_scenes_def sample_scene_def sample_url_def ascii_def)
  have n: "length ?ps = 10"
    by (simp add: twelve_scenes_def sample_scene_def sample_url_def ascii_def)
  from C1_groups_in_sequence [of twelve_scenes three_fail by_clock "ascii ''t1''", unfolded Let_def]
  obtain b where
    r: "handleGenerateAllImages three_fail by_clock (ascii ''t1'') twelve_scenes = Inr b" and
    l: "map snd (launched (trace b)) = map id_scene ?ps" and
    ten: "length ?ps = 10 \<longrightarrow> map length (launch_groups [] (trace b)) = [4, 4, 2]"
    by (elim exE conjE)
  from ten n have g: "map length (launch_groups [] (trace b)) = [4, 4, 2]"
    by (rule mp)
  from l ids have l': "map snd (launched (trace b)) = [1, 2, 4, 5, 6, 7, 9, 10, 11, 12]"
    by simp
  from n r l' g show ?thesis
    by (intro conjI exI [of _ b])
qed

lemma batch_trace_events:
  "batch_trace gen pend i tr \<Longrightarrow> e \<in> set tr \<Longrightarrow> is_Launch e \<or> is_Settle e"
  by (induction rule: batch_trace.induct) (auto simp: launch_of_def settle_of_def)

lemma batch_trace_no_toast: "batch_trace gen pend i tr \<Longrightarrow> filter is_AddToast tr = []"
  by (induction rule: batch_trace.induct) (simp_all add: launch_of_def settle_of_def comp_def)


lemma counts_total: "length (resolved_calls gen n) + length (rejected_calls gen n) = n"
proof -
  have "rejected_calls gen n =
      filter (\<lambda>k. \<not> (case gen k of Resolved u \<Rightarrow> True | Rejected e \<Rightarrow> False)) [0..<n]"
    unfolding rejected_calls_def by (rule filter_cong) (simp_all split: call_result.splits)
  then show ?thesis
    unfolding resolved_calls_def using sum_length_filter_compl [of _ "[0..<n]"] by simp
qed

text \<open>
  C2, for a run on the empty scene sequence, fails: the handler returns at its first
  line, and no notification is emitted.
\<close>

theorem C2_no_notification_on_empty_plan:
  "handleGenerateAllImages three_fail by_clock (ascii ''t1'') initial =
     Inr \<lparr> st = initial, successCount = 0, failureCount = 0, calls = 0, trace = [] \<rparr> \<and>
   toasts initial = []"
  by (simp add: handleGenerateAllImages_def initial_def)

text \<open>
  C2, amended: every batch run on a scene sequence that is not empty completes and
  emits exactly one notification, as its last step, after every call has settled. The
  notification carries the count of resolved calls and the count of rejected calls,
  which add up to the number of scenes pending at the start; it is persistent and no
  timer is set for it.
\<close>

theorem C2_aggregate_notification:
  "prompts s \<noteq> [] \<longrightarrow>
   (\<exists>b. handleGenerateAllImages gen pick tid s = Inr b \<and>
      successCount b = length (resolved_calls gen (length (pending (prompts s)))) \<and>
      failureCount b = length (rejected_calls gen (length (pending (prompts s)))) \<and>
      successCount b + failureCount b = length (pending (prompts s)) \<and>
      filter is_AddToast (trace b) =
        [AddToast (if 0 < failureCount b then warning else success)
           (aggregate_message (successCount b) (failureCount b)) (Some True)] \<and>
      last (trace b) =
        AddToast (if 0 < failureCount b then warning else success)
          (aggregate_message (successCount b) (failureCount b)) (Some True) \<and>
      mset (settled (butlast (trace b))) = mset [0..<length (pending (prompts s))] \<and>
      toasts (st b) = toasts s @
        [\<lparr> id_toast = tid, type_toast = (if 0 < failureCount b then warning else success),
           title = ascii ''Batch Generation Complete'',
           message = aggregate_message (successCount b) (failureCount b),
           persistent = Some True \<rparr>] \<and>
      timers (st b) = timers s)"
proof
  assume ne: "prompts s \<noteq> []"
  let ?n = "length (pending (prompts s))"
  from batch_run [OF ne, of gen pick tid] obtain b tr where
    r: "handleGenerateAllImages gen pick tid s = Inr b" and
    sh: "batch_trace gen (pending (prompts s)) 0 tr" and
    t: "trace b = SetBatchGenerating True # tr @
        [SetBatchGenerating False,
         AddToast (if 0 < failureCount b then warning else success)
           (aggregate_message (successCount b) (failureCount b)) (Some True)]" and
    sc: "successCount b = length (resolved_calls gen ?n)" and
    fc: "failureCount b = length (rejected_calls gen ?n)" and
    stb: "st b = s\<lparr> prompts := fold apply_event tr (prompts s), isBatchGenerating := False,
                toasts := toasts s @
                  [\<lparr> id_toast = tid, type_toast = (if 0 < failureCount b then warning else success),
                     title = ascii ''Batch Generation Complete'',
                     message = aggregate_message (successCount b) (failureCount b),
                     persistent = Some True \<rparr>] \<rparr>"
    by (elim exE conjE)
  have total: "successCount b + failureCount b = ?n"
    unfolding sc fc by (rule counts_total)
  have one: "filter is_AddToast (trace b) =
        [AddToast (if 0 < failureCount b then warning else success)
           (aggregate_message (successCount b) (failureCount b)) (Some True)]"
    unfolding t by (simp add: batch_trace_no_toast [OF sh])
  have lst: "last (trace b) =
        AddToast (if 0 < failureCount b then warning else success)
          (aggregate_message (successCount b) (failureCount b)) (Some True)"
    unfolding t by simp
  have "butlast (trace b) = SetBatchGenerating True # tr @ [SetBatchGenerating False]"
    unfolding t by (simp add: butlast_append)
  then have sett: "mset (settled (butlast (trace b))) = mset [0..<?n]"
    using batch_trace_settled [OF sh] by (simp add: settled_append)
  have ts: "toasts (st b) = toasts s @
        [\<lparr> id_toast = tid, type_toast = (if 0 < failureCount b then warning else success),
           title = ascii ''Batch Generation Complete'',
           message = aggregate_message (successCount b) (failureCount b),
           persistent = Some True \<rparr>]"
    unfolding stb by simp
  have tm: "timers (st b) = timers s"
    unfolding stb by simp
  from r sc fc total one lst sett ts tm
  show "\<exists>b. handleGenerateAllImages gen pick tid s = Inr b \<and>
      successCount b = length (resolved_calls gen (length (pending (prompts s)))) \<and>
      failureCount b = length (rejected_calls gen (length (pending (prompts s)))) \<and>
      successCount b + failureCount b = length (pending (prompts s)) \<and>
      filter is_AddToast (trace b) =
        [AddToast (if 0 < failureCount b then warning else success)
           (aggregate_message (successCount b) (failureCount b)) (Some True)] \<and>
      last (trace b) =
        AddToast (if 0 < failureCount b then warning else success)
          (aggregate_message (successCount b) (failureCount b)) (Some True) \<and>
      mset (settled (butlast (trace b))) = mset [0..<length (pending (prompts s))] \<and>
      toasts (st b) = toasts s @
        [\<lparr> id_toast = tid, type_toast = (if 0 < failureCount b then warning else success),
           title = ascii ''Batch Generation Complete'',
           message = aggregate_message (successCount b) (failureCount b),
           persistent = Some True \<rparr>] \<and>
      timers (st b) = timers s"
    by (intro exI [of _ b] conjI)
qed

lemma three_fail_counts:
  "length (resolved_calls three_fail 10) = 7" "length (rejected_calls three_fail 10) = 3"
  by (simp_all add: resolved_calls_def rejected_calls_def three_fail_def upt_rec [of _ 10]
      upt_conv_Cons)

lemma message_7_3:
  "aggregate_message 7 3 =
     ascii ''Successfully generated: 7 images.'' @ [0x0A] @ ascii ''Failed: 3 images.''"
  by (simp add: aggregate_message_def decimal.simps ascii_def)

text \<open>
  C2 at an input: with 3 of 10 calls failing the notification reports 7 and 3 and is
  persistent.
\<close>

theorem C2_aggregate_notification_witness:
  "prompts ten_scenes \<noteq> [] \<and>
   (\<exists>b. handleGenerateAllImages three_fail by_clock (ascii ''t1'') ten_scenes = Inr b \<and>
        successCount b = 7 \<and> failureCount b = 3 \<and>
        toasts (st b) =
          [\<lparr> id_toast = ascii ''t1'', type_toast = warning,
             title = ascii ''Batch Generation Complete'',
             message = ascii ''Successfully generated: 7 images.'' @ [0x0A] @ ascii ''Failed: 3 images.'',
             persistent = Some True \<rparr>] \<and>
        timers (st b) = [])"
proof -
  have ne: "prompts ten_scenes \<noteq> []"
    by (simp add: ten_scenes_def)
  from C2_aggregate_notification [of ten_scenes three_fail by_clock "ascii ''t1''"] ne obtain b where
    r: "handleGenerateAllImages three_fail by_clock (ascii ''t1'') ten_scenes = Inr b" and
    sc: "successCount b = length (resolved_calls three_fail (length (pending (prompts ten_scenes))))" and
    fc: "failureCount b = length (rejected_calls three_fail (length (pending (prompts ten_scenes))))" and
    ts: "toasts (st b) = toasts ten_scenes @
        [\<lparr> id_toast = ascii ''t1'', type_toast = (if 0 < failureCount b then warning else success),
           title = ascii ''Batch Generation Complete'',
           message = aggregate_message (successCount b) (failureCount b),
           persistent = Some True \<rparr>]" and
    tm: "timers (st b) = timers ten_scenes"
    by (elim impE exE conjE)
  from sc have sc7: "successCount b = 7" by (simp only: length_ten three_fail_counts)
  from fc have fc3: "failureCount b = 3" by (simp only: length_ten three_fail_counts)
  have ts': "toasts (st b) =
          [\<lparr> id_toast = ascii ''t1'', type_toast = warning,
             title = ascii ''Batch Generation Complete'',
             message = ascii ''Successfully generated: 7 images.'' @ [0x0A] @ ascii ''Failed: 3 images.'',
             persistent = Some True \<rparr>]"
    unfolding ts sc7 fc3 message_7_3 by (simp add: ten_scenes_def initial_def)
  have tm': "timers (st b) = []"
    unfolding tm by (simp add: ten_scenes_def initial_def)
  from ne r sc7 fc3 ts' tm' show ?thesis
    by (intro conjI exI [of _ b])
qed





text \<open>
  C4 fails for the handler itself: invoked in a state where the flag says that a batch
  is running, \<open>handleGenerateAllImages\<close> does not look at the flag and runs a batch of its
  own: it launches a call, stores the image and posts a toast.
\<close>

theorem C4_handler_runs_again:
  "isBatchGenerating running \<and>
   handleGenerateAllImages all_resolve oldest_first (ascii ''t1'') running =
     Inr \<lparr> st = running\<lparr> prompts := [(sample_scene 1)\<lparr> generatedImageUrl := Some sample_url,
                                  isLoading := Some False, generationFailed := Some False \<rparr>],
                         isBatchGenerating := False,
                         toasts := [\<lparr> id_toast = ascii ''t1'', type_toast = success,
                                      title = ascii ''Batch Generation Complete'',
                                      message = aggregate_message 1 0, persistent = Some True \<rparr>] \<rparr>,
           successCount = 1, failureCount = 0, calls = 1,
           trace = [SetBatchGenerating True, Launch 0 1, Settle 0 1 (Resolved sample_url),
                    SetBatchGenerating False, AddToast success (aggregate_message 1 0) (Some True)] \<rparr>"
  by (simp add: running_def handleGenerateAllImages_def pending_def truthy_def sample_scene_def
      initial_def batch_loop.simps run_chunk_def slice_def MAX_CONCURRENT_GENERATIONS_def
      member_begin_def settle_all.simps member_settle_def member_try_def all_resolve_def
      remove_nth_def markLoading_def setImage_def addToast_def aggregate_message_def Let_def
      oldest_first_def)

text \<open>
  C4, amended: the button that triggers the batch is disabled while the flag is set, so
  a click in that state starts nothing and changes nothing, and a click while the flag is
  clear runs the handler: no batch is started from the button while one is running. A run of the handler on a scene sequence that is not empty
  sets the flag first, before any call is launched, then only launches and settles calls
  until all have settled, then clears the flag, and then posts the notification: the
  flag is cleared after the last settlement and just before the notification.
\<close>

theorem C4_single_flight:
  "(isBatchGenerating s \<longrightarrow>
      click_generateAll gen pick tid s =
        Inr \<lparr> st = s, successCount = 0, failureCount = 0, calls = 0, trace = [] \<rparr>) \<and>
   (\<not> isBatchGenerating s \<longrightarrow>
      click_generateAll gen pick tid s = handleGenerateAllImages gen pick tid s) \<and>
   (prompts s \<noteq> [] \<longrightarrow>
      (\<exists>b tr. handleGenerateAllImages gen pick tid s = Inr b \<and>
         trace b = SetBatchGenerating True # tr @
           [SetBatchGenerating False,
            AddToast (if 0 < failureCount b then warning else success)
              (aggregate_message (successCount b) (failureCount b)) (Some True)] \<and>
         (\<forall>e\<in>set tr. is_Launch e \<or> is_Settle e) \<and>
         map fst (launched tr) = [0..<length (pending (prompts s))] \<and>
         mset (settled tr) = mset [0..<length (pending (prompts s))] \<and>
         \<not> isBatchGenerating (st b)))"
proof (intro conjI impI)
  assume "isBatchGenerating s"
  then show "click_generateAll gen pick tid s =
        Inr \<lparr> st = s, successCount = 0, failureCount = 0, calls = 0, trace = [] \<rparr>"
    by (simp add: click_generateAll_def)
next
  assume "\<not> isBatchGenerating s"
  then show "click_generateAll gen pick tid s = handleGenerateAllImages gen pick tid s"
    by (simp add: click_generateAll_def)
next
  assume ne: "prompts s \<noteq> []"
  let ?pend = "pending (prompts s)"
  from batch_run [OF ne, of gen pick tid] obtain b tr where
    r: "handleGenerateAllImages gen pick tid s = Inr b" and
    sh: "batch_trace gen ?pend 0 tr" and
    t: "trace b = SetBatchGenerating True # tr @
        [SetBatchGenerating False,
         AddToast (if 0 < failureCount b then warning else success)
           (aggregate_message (successCount b) (failureCount b)) (Some True)]" and
    stb: "st b = s\<lparr> prompts := fold apply_event tr (prompts s), isBatchGenerating := False,
                toasts := toasts s @
                  [\<lparr> id_toast = tid, type_toast = (if 0 < failureCount b then warning else success),
                     title = ascii ''Batch Generation Complete'',
                     message = aggregate_message (successCount b) (failureCount b),
                     persistent = Some True \<rparr>] \<rparr>"
    by (elim exE conjE)
  have ev: "\<forall>e\<in>set tr. is_Launch e \<or> is_Settle e"
    using batch_trace_events [OF sh] by blast
  have la: "map fst (launched tr) = [0..<length ?pend]"
    unfolding batch_trace_launched [OF sh] by (simp add: comp_def)
  have se: "mset (settled tr) = mset [0..<length ?pend]"
    by (rule batch_trace_settled [OF sh])
  have fl: "\<not> isBatchGenerating (st b)"
    unfolding stb by simp
  from r t ev la se fl
  show "\<exists>b tr. handleGenerateAllImages gen pick tid s = Inr b \<and>
         trace b = SetBatchGenerating True # tr @
           [SetBatchGenerating False,
            AddToast (if 0 < failureCount b then warning else success)
              (aggregate_message (successCount b) (failureCount b)) (Some True)] \<and>
         (\<forall>e\<in>set tr. is_Launch e \<or> is_Settle e) \<and>
         map fst (launched tr) = [0..<length (pending (prompts s))] \<and>
         mset (settled tr) = mset [0..<length (pending (prompts s))] \<and>
         \<not> isBatchGenerating (st b)"
    by (intro exI [of _ b] exI [of _ tr] conjI)
qed

text \<open>
  C4 at inputs: a click while a batch is marked as running, a click on a plan of five
  scenes with the flag clear, and a run of the handler that ends with the flag clear.
\<close>

theorem C4_single_flight_witness:
  "isBatchGenerating running \<and> prompts running \<noteq> [] \<and>
   click_generateAll all_resolve oldest_first (ascii ''t2'') running =
     Inr \<lparr> st = running, successCount = 0, failureCount = 0, calls = 0, trace = [] \<rparr> \<and>
   \<not> isBatchGenerating five_scenes \<and>
   click_generateAll first_fails oldest_first (ascii ''t1'') five_scenes =
     handleGenerateAllImages first_fails oldest_first (ascii ''t1'') five_scenes \<and>
   (\<exists>b. handleGenerateAllImages all_resolve oldest_first (ascii ''t2'') running = Inr b \<and>
        \<not> isBatchGenerating (st b))"
proof -
  have f: "isBatchGenerating running" and ne: "prompts running \<noteq> []"
    by (simp_all add: running_def)
  have nf: "\<not> isBatchGenerating five_scenes"
    by (simp add: five_scenes_def initial_def)
  note a = C4_single_flight [of running all_resolve oldest_first "ascii ''t2''"]
  note b = C4_single_flight [of five_scenes first_fails oldest_first "ascii ''t1''"]
  have 1: "click_generateAll all_resolve oldest_first (ascii ''t2'') running =
     Inr \<lparr> st = running, successCount = 0, failureCount = 0, calls = 0, trace = [] \<rparr>"
    by (rule a [THEN conjunct1, THEN mp, OF f])
  have 2: "click_generateAll first_fails oldest_first (ascii ''t1'') five_scenes =
     handleGenerateAllImages first_fails oldest_first (ascii ''t1'') five_scenes"
    by (rule b [THEN conjunct2, THEN conjunct1, THEN mp, OF nf])
  from a [THEN conjunct2, THEN conjunct2, THEN mp, OF ne] obtain r where
    "handleGenerateAllImages all_resolve oldest_first (ascii ''t2'') running = Inr r"
    "\<not> isBatchGenerating (st r)"
    by (elim conjE exE)
  then have 3: "\<exists>b. handleGenerateAllImages all_resolve oldest_first (ascii ''t2'') running = Inr b \<and>
        \<not> isBatchGenerating (st b)"
    by (intro exI [of _ r] conjI)
  from f ne 1 nf 2 3 show ?thesis by (intro conjI)
qed

subsection \<open>Single-scene generation goes through the same updates\<close>

lemma handleGenerateImage_events:
  "\<exists>evs. prompts (handleGenerateImage i r tid s) = fold apply_event evs (prompts s)"
proof (cases "find (\<lambda>p. id_scene p = i) (prompts s)")
  case None
  then have "prompts (handleGenerateImage i r tid s) = fold apply_event [] (prompts s)"
    by (simp add: handleGenerateImage_def)
  then show ?thesis ..
next
  case (Some prompt)
  then have "prompts (handleGenerateImage i r tid s) =
      fold apply_event [Launch 0 i, Settle 0 i r] (prompts s)"
    by (cases r) (simp_all add: handleGenerateImage_def addToast_def)
  then show ?thesis ..
qed

end
